theory Spec2Isabelle
  imports Complex_Main
begin

section \<open>Errors and Python primitives\<close>

text \<open>
  The node is the Python class \<open>WaypointUpdater\<close> of
  \<open>ros/src/waypoint_updater/waypoint_updater.py\<close>. Python floats are modelled as
  real numbers: rounding, overflow, infinities and NaN are left out. Python integers
  are \<open>int\<close>. Exceptions are values of type \<open>error\<close>; an operation that may raise
  returns \<open>error + 'a\<close>, and \<open>ebind\<close> passes the first exception on.
\<close>

datatype error = IndexError | ZeroDivisionError | ValueError | AttributeError | OverflowError

definition ebind :: "error + 'a \<Rightarrow> ('a \<Rightarrow> error + 'b) \<Rightarrow> error + 'b" where
  "ebind m f = (case m of Inl e \<Rightarrow> Inl e | Inr v \<Rightarrow> f v)"

text \<open>Subscripting a Python list: negative indices count from the end.\<close>

definition py_index :: "'a list \<Rightarrow> int \<Rightarrow> error + 'a" where
  "py_index xs i =
     (let n = int (length xs); j = (if i < 0 then i + n else i)
      in if 0 \<le> j \<and> j < n then Inr (xs ! nat j) else Inl IndexError)"

text \<open>Python's \<open>%\<close> on integers: the sign of the result follows the divisor.\<close>

definition py_mod :: "int \<Rightarrow> int \<Rightarrow> error + int" where
  "py_mod a b = (if b = 0 then Inl ZeroDivisionError else Inr (a mod b))"

text \<open>\<open>math.sqrt\<close> raises \<open>ValueError\<close> on a negative argument.\<close>

definition math_sqrt :: "real \<Rightarrow> error + real" where
  "math_sqrt v = (if v < 0 then Inl ValueError else Inr (sqrt v))"

text \<open>
  \<open>v ** 2\<close> on a float raises \<open>OverflowError\<close> where the square is beyond the
  largest float. That is the case exactly from \<open>2 ^ 512\<close> on: the square of the
  largest float below \<open>2 ^ 512\<close> is still below the largest float.
\<close>

definition float_square :: "real \<Rightarrow> error + real" where
  "float_square v = (if 2 ^ 512 \<le> \<bar>v\<bar> then Inl OverflowError else Inr (v\<^sup>2))"

definition LOOKAHEAD_WPS :: int where "LOOKAHEAD_WPS = 100"
definition MAX_DECEL :: real where "MAX_DECEL = 4"
definition STOP_BUFFER :: real where "STOP_BUFFER = 5 / 2"

section \<open>Messages and the object store\<close>

record Point =
  point_x :: real
  point_y :: real
  point_z :: real

record Quaternion =
  quat_x :: real
  quat_y :: real
  quat_z :: real
  quat_w :: real

record Pose =
  position :: Point
  orientation :: Quaternion

record Twist =
  linear_x :: real
  linear_y :: real
  linear_z :: real
  angular_x :: real
  angular_y :: real
  angular_z :: real

text \<open>
  A \<open>Waypoint\<close> object holds references to a pose object and to a twist object.
  The code writes \<open>wp.twist.twist.linear.x\<close> in place, so the twist and pose objects
  live in a store, addressed by natural numbers; \<open>fresh\<close> is the next unused address.
  Message headers carry no data the code reads and are left out.
\<close>

type_synonym addr = nat

record Waypoint =
  pose :: addr
  twist :: addr

record heap =
  poses :: "addr \<Rightarrow> Pose"
  twists :: "addr \<Rightarrow> Twist"
  fresh :: addr

text \<open>\<open>copy.deepcopy\<close> allocates a new object with the same contents.\<close>

definition deepcopy_pose :: "heap \<Rightarrow> addr \<Rightarrow> heap \<times> addr" where
  "deepcopy_pose h a =
     (h\<lparr>poses := (poses h)(fresh h := poses h a), fresh := Suc (fresh h)\<rparr>, fresh h)"

definition deepcopy_twist :: "heap \<Rightarrow> addr \<Rightarrow> heap \<times> addr" where
  "deepcopy_twist h a =
     (h\<lparr>twists := (twists h)(fresh h := twists h a), fresh := Suc (fresh h)\<rparr>, fresh h)"

text \<open>The assignment \<open>wp.twist.twist.linear.x = v\<close> through a twist reference.\<close>

definition set_linear_x :: "heap \<Rightarrow> addr \<Rightarrow> real \<Rightarrow> heap" where
  "set_linear_x h a v = h\<lparr>twists := (twists h)(a := (twists h a)\<lparr>linear_x := v\<rparr>)\<rparr>"

text \<open>Reading a waypoint out of the store (what publishing a message serialises).\<close>

definition deref :: "heap \<Rightarrow> Waypoint \<Rightarrow> Pose \<times> Twist" where
  "deref h wp = (poses h (pose wp), twists h (twist wp))"

definition speed :: "heap \<Rightarrow> Waypoint \<Rightarrow> real" where
  "speed h wp = linear_x (twists h (twist wp))"

definition pos :: "heap \<Rightarrow> Waypoint \<Rightarrow> Point" where
  "pos h wp = position (poses h (pose wp))"

section \<open>The node's attributes\<close>

text \<open>
  \<open>base_waypoints\<close> and \<open>current_pose\<close> exist only after their callback has run
  (\<open>hasattr\<close>), hence the options; so does \<open>obstacle_waypoint\<close>. The pose message is
  never written to, so it is held by value.
\<close>

record state =
  current_velocity :: real
  decel :: real
  accel :: real
  traffic_waypoint :: int
  braking :: bool
  last_starting_point :: "Point option"
  base_waypoints :: "Waypoint list option"
  current_pose :: "Pose option"
  obstacle_waypoint :: "int option"

definition init_state :: state where
  "init_state = \<lparr>current_velocity = 0, decel = 1, accel = 1, traffic_waypoint = - 1,
     braking = False, last_starting_point = None, base_waypoints = None,
     current_pose = None, obstacle_waypoint = None\<rparr>"

section \<open>Localisation\<close>

definition distance :: "Point \<Rightarrow> Point \<Rightarrow> real" where
  "distance p1 p2 =
     (let x = point_x p1 - point_x p2;
          y = point_y p1 - point_y p2;
          z = point_z p1 - point_z p2
      in sqrt (x * x + y * y + z * z))"

text \<open>
  The scan of \<open>get_closest_waypoint\<close>. \<open>closest_dist\<close> starts as \<open>float('inf')\<close>,
  modelled by \<open>None\<close>: every distance is below it. The indices come from
  \<open>range(len(waypoints))\<close>, so the subscript is in range.
\<close>

fun closest_loop ::
  "heap \<Rightarrow> Pose \<Rightarrow> Waypoint list \<Rightarrow> nat list \<Rightarrow> real option \<times> int \<Rightarrow> real option \<times> int" where
  "closest_loop h p waypoints [] acc = acc"
| "closest_loop h p waypoints (i # is) (closest_dist, closest_wp) =
     (let dist = distance (position p) (pos h (waypoints ! i))
      in if (case closest_dist of None \<Rightarrow> True | Some d \<Rightarrow> dist < d)
         then closest_loop h p waypoints is (Some dist, int i)
         else closest_loop h p waypoints is (closest_dist, closest_wp))"

definition get_closest_waypoint :: "heap \<Rightarrow> Pose \<Rightarrow> Waypoint list \<Rightarrow> int" where
  "get_closest_waypoint h p waypoints =
     snd (closest_loop h p waypoints [0..<length waypoints] (None, 0))"

definition get_next_waypoint :: "heap \<Rightarrow> Pose \<Rightarrow> Waypoint list \<Rightarrow> error + int" where
  "get_next_waypoint h p waypoints =
     (let closest_wp = get_closest_waypoint h p waypoints in
      ebind (py_mod (closest_wp + 1) (int (length waypoints))) (\<lambda>closest_wp_next.
      ebind (py_index waypoints closest_wp) (\<lambda>w0.
      ebind (py_index waypoints closest_wp_next) (\<lambda>w1.
        let wp0_x = point_x (pos h w0);
            wp0_y = point_y (pos h w0);
            wp1_x = point_x (pos h w1);
            wp1_y = point_y (pos h w1);
            x = point_x (position p);
            y = point_y (position p)
        in if (y - wp0_y) * (wp1_y - wp0_y) + (x - wp0_x) * (wp1_x - wp0_x) \<ge> 0
           then Inr closest_wp_next
           else Inr closest_wp))))"

section \<open>Velocity shaping\<close>

text \<open>
  The loop of \<open>accelerate\<close>; leaving the recursion is the \<open>break\<close>.
\<close>

fun accelerate_loop :: "state \<Rightarrow> Point \<Rightarrow> Waypoint list \<Rightarrow> heap \<Rightarrow> error + heap" where
  "accelerate_loop st lsp [] h = Inr h"
| "accelerate_loop st lsp (wp # wps) h =
     (let dist = distance lsp (pos h wp) in
      ebind (math_sqrt (2 * accel st * dist)) (\<lambda>vel.
        if speed h wp > vel
        then accelerate_loop st lsp wps (set_linear_x h (twist wp) vel)
        else Inr h))"

text \<open>
  Lines 111 and 112: at a standstill the current position becomes the origin of the
  acceleration ramp. Reading \<open>self.current_pose\<close> fails where no pose has arrived.
\<close>

definition set_starting_point :: "state \<Rightarrow> error + state" where
  "set_starting_point st =
     (if current_velocity st \<le> 1 / 10000
      then (case current_pose st of
              None \<Rightarrow> Inl AttributeError
            | Some cp \<Rightarrow> Inr (st\<lparr>last_starting_point := Some (position cp)\<rparr>))
      else Inr st)"

definition accelerate ::
  "heap \<Rightarrow> state \<Rightarrow> Waypoint list \<Rightarrow> error + heap \<times> state \<times> Waypoint list" where
  "accelerate h st waypoints =
     ebind (set_starting_point st) (\<lambda>st1.
     case last_starting_point st1 of
       None \<Rightarrow> Inr (h, st1, waypoints)
     | Some lsp \<Rightarrow>
         ebind (accelerate_loop st1 lsp waypoints h) (\<lambda>h'. Inr (h', st1, waypoints)))"

text \<open>
  The loop of \<open>decelerate\<close>; \<open>last\<close> is a reference into the window, read in each
  iteration.
\<close>

fun decelerate_loop :: "state \<Rightarrow> Waypoint \<Rightarrow> Waypoint list \<Rightarrow> heap \<Rightarrow> error + heap" where
  "decelerate_loop st lst [] h = Inr h"
| "decelerate_loop st lst (wp # wps) h =
     (let dist = distance (pos h wp) (pos h lst);
          dist = max 0 (dist - STOP_BUFFER) in
      ebind (math_sqrt (2 * decel st * dist)) (\<lambda>vel.
        decelerate_loop st lst wps (set_linear_x h (twist wp) (min vel (speed h wp)))))"

definition decelerate ::
  "heap \<Rightarrow> state \<Rightarrow> Waypoint list \<Rightarrow> error + heap \<times> Waypoint list" where
  "decelerate h st waypoints =
     ebind (py_index waypoints (int (length waypoints) - 1)) (\<lambda>lst.
     ebind (decelerate_loop st lst waypoints (set_linear_x h (twist lst) 0)) (\<lambda>h'.
       Inr (h', waypoints)))"

section \<open>Window extraction\<close>

text \<open>
  The \<open>for\<close> loop of \<open>get_final_waypoints\<close> over \<open>range(start_wp, end_wp + 1)\<close>:
  each round builds a new \<open>Waypoint\<close> from deep copies and appends it.
\<close>

fun copy_loop ::
  "Waypoint list \<Rightarrow> int list \<Rightarrow> heap \<Rightarrow> Waypoint list \<Rightarrow> error + heap \<times> Waypoint list" where
  "copy_loop waypoints [] h final_waypoints = Inr (h, final_waypoints)"
| "copy_loop waypoints (i # is) h final_waypoints =
     ebind (py_mod i (int (length waypoints))) (\<lambda>index.
     ebind (py_index waypoints index) (\<lambda>src.
       let (h1, p) = deepcopy_pose h (pose src);
           (h2, t) = deepcopy_twist h1 (twist src)
       in copy_loop waypoints is h2 (final_waypoints @ [\<lparr>pose = p, twist = t\<rparr>])))"

text \<open>Lines 89 to 99: the end index is moved past the route's end, then the copy loop runs.\<close>

definition extract_window ::
  "heap \<Rightarrow> Waypoint list \<Rightarrow> int \<Rightarrow> int \<Rightarrow> error + heap \<times> Waypoint list" where
  "extract_window h waypoints start_wp end_wp =
     (let end_wp = (if end_wp < start_wp then end_wp + int (length waypoints) else end_wp)
      in copy_loop waypoints [start_wp..end_wp] h [])"

definition get_final_waypoints ::
  "heap \<Rightarrow> state \<Rightarrow> Waypoint list \<Rightarrow> int \<Rightarrow> int \<Rightarrow> error + heap \<times> state \<times> Waypoint list" where
  "get_final_waypoints h st waypoints start_wp end_wp =
     ebind (extract_window h waypoints start_wp end_wp) (\<lambda>(h1, final_waypoints).
       if braking st
       then ebind (decelerate h1 st final_waypoints) (\<lambda>(h2, ws). Inr (h2, st, ws))
       else accelerate h1 st final_waypoints)"

section \<open>The periodic cycle\<close>

text \<open>
  One call of \<open>loop\<close>. The result holds the store, the node's attributes and what was
  published in this cycle (\<open>None\<close> when the cycle is skipped); publishing serialises the
  window. The subscript of line 56 and the square of line 59 come before the test of
  the stop index and may raise. An exception leaves \<open>loop\<close> and the \<open>while\<close> loop of
  \<open>__init__\<close>, which ends the process.
\<close>

definition publish :: "heap \<times> state \<times> Waypoint list \<Rightarrow> error + heap \<times> state \<times> (Pose \<times> Twist) list option" where
  "publish r = (case r of (h, st, ws) \<Rightarrow> Inr (h, st, Some (map (deref h) ws)))"

definition loop :: "heap \<Rightarrow> state \<Rightarrow> error + heap \<times> state \<times> (Pose \<times> Twist) list option" where
  "loop h st =
     (case (base_waypoints st, current_pose st) of
        (Some wpts, Some p) \<Rightarrow>
          ebind (get_next_waypoint h p wpts) (\<lambda>next_wp.
          let traffic_wp = traffic_waypoint st in
          ebind (py_index wpts traffic_wp) (\<lambda>twp.
          let tl_dist = distance (position p) (pos h twp) in
          ebind (float_square (current_velocity st)) (\<lambda>v2.
          let min_stopping_dist = v2 / (2 * MAX_DECEL) + STOP_BUFFER
          in if traffic_wp = - 1
             then ebind (get_final_waypoints h (st\<lparr>braking := False\<rparr>) wpts
                           next_wp (next_wp + LOOKAHEAD_WPS)) publish
             else if \<not> braking st \<and> tl_dist < min_stopping_dist
             then ebind (get_final_waypoints h st wpts next_wp (next_wp + LOOKAHEAD_WPS)) publish
             else ebind (get_final_waypoints h (st\<lparr>braking := True\<rparr>) wpts
                           next_wp traffic_wp) publish)))
      | _ \<Rightarrow> Inr (h, st, None))"

section \<open>Callbacks and runs\<close>

text \<open>
  What can happen to the node: one of the five subscriptions delivers a message, or the
  timer runs a cycle. Callbacks are taken to run between cycles, not during one. An
  arriving route is deserialised into new objects of the store. A run ends with the
  first exception.
\<close>

datatype event =
    CurrentPose Pose
  | BaseWaypoints "(Pose \<times> Twist) list"
  | TrafficWaypoint int
  | ObstacleWaypoint int
  | CurrentVelocity real
  | Cycle

fun alloc_lane :: "heap \<Rightarrow> (Pose \<times> Twist) list \<Rightarrow> heap \<times> Waypoint list" where
  "alloc_lane h [] = (h, [])"
| "alloc_lane h ((p, t) # ms) =
     (let a = fresh h;
          h1 = h\<lparr>poses := (poses h)(a := p), twists := (twists h)(Suc a := t),
                 fresh := Suc (Suc a)\<rparr>;
          (h2, ws) = alloc_lane h1 ms
      in (h2, \<lparr>pose = a, twist = Suc a\<rparr> # ws))"

fun step :: "event \<Rightarrow> heap \<times> state \<Rightarrow> error + heap \<times> state" where
  "step (CurrentPose msg) (h, st) = Inr (h, st\<lparr>current_pose := Some msg\<rparr>)"
| "step (BaseWaypoints msg) (h, st) =
     (let (h1, ws) = alloc_lane h msg in Inr (h1, st\<lparr>base_waypoints := Some ws\<rparr>))"
| "step (TrafficWaypoint d) (h, st) = Inr (h, st\<lparr>traffic_waypoint := d\<rparr>)"
| "step (ObstacleWaypoint d) (h, st) = Inr (h, st\<lparr>obstacle_waypoint := Some d\<rparr>)"
| "step (CurrentVelocity v) (h, st) = Inr (h, st\<lparr>current_velocity := v\<rparr>)"
| "step Cycle (h, st) = ebind (loop h st) (\<lambda>(h1, st1, out). Inr (h1, st1))"

fun run :: "event list \<Rightarrow> heap \<times> state \<Rightarrow> error + heap \<times> state" where
  "run [] s = Inr s"
| "run (e # es) s = ebind (step e s) (run es)"

text \<open>
  Every route object lies below \<open>fresh\<close>: the store invariant under which a new
  object never overwrites a route point.
\<close>

definition route_allocated :: "heap \<Rightarrow> state \<Rightarrow> bool" where
  "route_allocated h st =
     (case base_waypoints st of
        None \<Rightarrow> True
      | Some w \<Rightarrow> \<forall>x\<in>set w. pose x < fresh h \<and> twist x < fresh h)"

section \<open>Observations and a small route\<close>

text \<open>What a cycle published, if it returned and published at all.\<close>

definition emitted :: "error + heap \<times> state \<times> 'a option \<Rightarrow> 'a option" where
  "emitted r = (case r of Inl e \<Rightarrow> None | Inr (h, st, out) \<Rightarrow> out)"

text \<open>
  A route of three points on the x axis, at 0, 10 and 12, each with nominal speed 5, as
  it lies in the store after its arrival, and a node that has received it and the pose
  of a vehicle at x = 1.
\<close>

definition pose_at :: "real \<Rightarrow> real \<Rightarrow> Pose" where
  "pose_at a b = \<lparr>position = \<lparr>point_x = a, point_y = b, point_z = 0\<rparr>,
                  orientation = \<lparr>quat_x = 0, quat_y = 0, quat_z = 0, quat_w = 1\<rparr>\<rparr>"

definition twist_of :: "real \<Rightarrow> Twist" where
  "twist_of v = \<lparr>linear_x = v, linear_y = 0, linear_z = 0,
                 angular_x = 0, angular_y = 0, angular_z = 0\<rparr>"

definition empty_heap :: heap where
  "empty_heap = \<lparr>poses = (\<lambda>a. pose_at 0 0), twists = (\<lambda>a. twist_of 0), fresh = 0\<rparr>"

definition test_route :: "Waypoint list" where
  "test_route = [\<lparr>pose = 0, twist = 1\<rparr>, \<lparr>pose = 2, twist = 3\<rparr>, \<lparr>pose = 4, twist = 5\<rparr>]"

definition test_heap :: heap where
  "test_heap = \<lparr>poses = (\<lambda>a. pose_at 0 0)(0 := pose_at 0 0, 2 := pose_at 10 0, 4 := pose_at 12 0),
                 twists = (\<lambda>a. twist_of 0)(1 := twist_of 5, 3 := twist_of 5, 5 := twist_of 5),
                 fresh = 6\<rparr>"

definition test_node :: "int \<Rightarrow> bool \<Rightarrow> state" where
  "test_node stop_index mode =
     init_state\<lparr>base_waypoints := Some test_route, current_pose := Some (pose_at 1 0),
                traffic_waypoint := stop_index, braking := mode\<rparr>"

text \<open>A window of two points, the first one unit before the last and with speed -1.\<close>

definition reverse_window :: "Waypoint list" where
  "reverse_window = [\<lparr>pose = 0, twist = 1\<rparr>, \<lparr>pose = 2, twist = 3\<rparr>]"

definition reverse_heap :: heap where
  "reverse_heap = \<lparr>poses = (\<lambda>a. pose_at 0 0)(0 := pose_at 0 0, 2 := pose_at 1 0),
                    twists = (\<lambda>a. twist_of 0)(1 := twist_of (- 1), 3 := twist_of 5),
                    fresh = 4\<rparr>"

section \<open>Basic facts\<close>

lemma ebind_Inl [simp]: "ebind (Inl e) f = Inl e"
  by (simp add: ebind_def)

lemma ebind_Inr [simp]: "ebind (Inr v) f = f v"
  by (simp add: ebind_def)

lemma ebind_eq_Inr: "ebind m f = Inr r \<longleftrightarrow> (\<exists>v. m = Inr v \<and> f v = Inr r)"
  by (cases m) simp_all

lemma math_sqrt_Inr: "math_sqrt v = Inr r \<longleftrightarrow> 0 \<le> v \<and> r = sqrt v"
  by (auto simp: math_sqrt_def)

lemma set_linear_x_frame [simp]:
  "poses (set_linear_x h a v) = poses h" "fresh (set_linear_x h a v) = fresh h"
  by (simp_all add: set_linear_x_def)

lemma accelerate_loop_state:
  "accelerate_loop st lsp wps h = Inr h' \<Longrightarrow> poses h' = poses h \<and> fresh h' = fresh h"
proof (induction wps arbitrary: h)
  case Nil
  then show ?case by simp
next
  case (Cons wp wps)
  then show ?case
    by (auto simp: ebind_eq_Inr Let_def split: if_splits)
qed

lemma accelerate_braking:
  "accelerate h st ws = Inr (h', st', ws') \<Longrightarrow> braking st' = braking st \<and> traffic_waypoint st' = traffic_waypoint st"
  by (auto simp: accelerate_def set_starting_point_def ebind_eq_Inr split: if_splits option.splits)

lemma get_final_waypoints_braking:
  "get_final_waypoints h st wpts s e = Inr (h', st', ws) \<Longrightarrow> braking st' = braking st"
  by (auto simp: get_final_waypoints_def ebind_eq_Inr split: if_splits dest: accelerate_braking)

lemma loop_keeps_braking:
  assumes "loop h st = Inr (h', st', out)" "braking st" "traffic_waypoint st \<noteq> - 1"
  shows "braking st'"
  using assms
  by (auto simp: loop_def ebind_eq_Inr publish_def Let_def
           split: option.splits if_splits dest: get_final_waypoints_braking)

lemma step_keeps_braking:
  assumes "step e (h, st) = Inr (h', st')" "braking st" "\<not> braking st'"
  shows "e = Cycle \<and> traffic_waypoint st = - 1"
  using assms
  by (cases e) (auto simp: ebind_eq_Inr split: prod.splits dest: loop_keeps_braking)

section \<open>Localisation: the closest and the next waypoint\<close>

lemma py_index_in_range: "0 \<le> i \<Longrightarrow> i < int (length xs) \<Longrightarrow> py_index xs i = Inr (xs ! nat i)"
  by (simp add: py_index_def)

lemma py_index_out_of_range:
   "i < - int (length xs) \<or> int (length xs) \<le> i \<Longrightarrow> py_index xs i = Inl IndexError"
  by (auto simp: py_index_def Let_def)

lemma closest_loop_append:
  "closest_loop h p w (xs @ ys) acc = closest_loop h p w ys (closest_loop h p w xs acc)"
proof (induction xs arbitrary: acc)
  case Nil
  then show ?case by simp
next
  case (Cons i xs)
  then show ?case by (cases acc) (simp add: Let_def)
qed

lemma closest_loop_prefix:
  assumes "0 < n"
  shows "\<exists>c. closest_loop h p w [0..<n] (None, 0)
              = (Some (distance (position p) (pos h (w ! c))), int c)
           \<and> c < n
           \<and> (\<forall>j<n. distance (position p) (pos h (w ! c)) \<le> distance (position p) (pos h (w ! j)))
           \<and> (\<forall>j<c. distance (position p) (pos h (w ! c)) < distance (position p) (pos h (w ! j)))"
  using assms
proof (induction n)
  case 0
  then show ?case by simp
next
  case (Suc n)
  let ?D = "\<lambda>j. distance (position p) (pos h (w ! j))"
  show ?case
  proof (cases "n = 0")
    case True
    then show ?thesis by (simp add: Let_def)
  next
    case False
    with Suc.IH obtain c where c:
      "closest_loop h p w [0..<n] (None, 0) = (Some (?D c), int c)" "c < n"
      "\<forall>j<n. ?D c \<le> ?D j" "\<forall>j<c. ?D c < ?D j"
      by auto
    show ?thesis
    proof (cases "?D n < ?D c")
      case True
      have "closest_loop h p w [0..<Suc n] (None, 0) = (Some (?D n), int n)"
        using c(1) True by (simp add: closest_loop_append Let_def)
      moreover have "\<forall>j<Suc n. ?D n \<le> ?D j"
        using c(3) True by (auto simp: less_Suc_eq intro: order.trans less_imp_le)
      moreover have "\<forall>j<n. ?D n < ?D j"
        using c(3) True by (auto intro: less_le_trans)
      ultimately show ?thesis by (intro exI[of _ n]) simp
    next
      case False
      have "closest_loop h p w [0..<Suc n] (None, 0) = (Some (?D c), int c)"
        using c(1) False by (simp add: closest_loop_append Let_def)
      moreover have "\<forall>j<Suc n. ?D c \<le> ?D j"
        using c(3) False by (auto simp: less_Suc_eq)
      ultimately show ?thesis using c(2,4) by (intro exI[of _ c]) simp
    qed
  qed
qed

lemma get_closest_waypoint_closest:
  assumes "w \<noteq> []"
  shows "0 \<le> get_closest_waypoint h p w \<and> get_closest_waypoint h p w < int (length w)
    \<and> (\<forall>j<length w. distance (position p) (pos h (w ! nat (get_closest_waypoint h p w)))
                       \<le> distance (position p) (pos h (w ! j)))
    \<and> (\<forall>j<nat (get_closest_waypoint h p w).
           distance (position p) (pos h (w ! nat (get_closest_waypoint h p w)))
             < distance (position p) (pos h (w ! j)))"
proof -
  from assms have "0 < length w" by simp
  from closest_loop_prefix[OF this, of h p w] obtain c where c:
    "closest_loop h p w [0..<length w] (None, 0)
       = (Some (distance (position p) (pos h (w ! c))), int c)" "c < length w"
    "\<forall>j<length w. distance (position p) (pos h (w ! c)) \<le> distance (position p) (pos h (w ! j))"
    "\<forall>j<c. distance (position p) (pos h (w ! c)) < distance (position p) (pos h (w ! j))"
    by blast
  have "get_closest_waypoint h p w = int c"
    by (simp add: get_closest_waypoint_def c(1))
  then show ?thesis using c(2,3,4) by simp
qed

lemma get_next_waypoint_value:
  assumes "w \<noteq> []"
  shows "get_next_waypoint h p w =
     Inr (if 0 \<le> (point_y (position p) - point_y (pos h (w ! nat (get_closest_waypoint h p w))))
                 * (point_y (pos h (w ! nat ((get_closest_waypoint h p w + 1) mod int (length w))))
                    - point_y (pos h (w ! nat (get_closest_waypoint h p w))))
               + (point_x (position p) - point_x (pos h (w ! nat (get_closest_waypoint h p w))))
                 * (point_x (pos h (w ! nat ((get_closest_waypoint h p w + 1) mod int (length w))))
                    - point_x (pos h (w ! nat (get_closest_waypoint h p w))))
          then (get_closest_waypoint h p w + 1) mod int (length w)
          else get_closest_waypoint h p w)"
proof -
  have c: "0 \<le> get_closest_waypoint h p w" "get_closest_waypoint h p w < int (length w)"
    using get_closest_waypoint_closest[OF assms, of h p] by simp_all
  have n: "int (length w) \<noteq> 0" "0 < int (length w)" using assms by simp_all
  have m: "0 \<le> (get_closest_waypoint h p w + 1) mod int (length w)"
          "(get_closest_waypoint h p w + 1) mod int (length w) < int (length w)"
    using n by simp_all
  show ?thesis
    unfolding get_next_waypoint_def Let_def
    by (simp only: py_mod_def n if_False ebind_Inr py_index_in_range[OF c] py_index_in_range[OF m]
          if_distrib[of Inr])
qed

lemma get_next_waypoint_range:
  assumes "w \<noteq> []"
  shows "\<exists>r. get_next_waypoint h p w = Inr r \<and> 0 \<le> r \<and> r < int (length w)"
proof -
  have c: "0 \<le> get_closest_waypoint h p w" "get_closest_waypoint h p w < int (length w)"
    using get_closest_waypoint_closest[OF assms, of h p] by simp_all
  have m: "0 \<le> (get_closest_waypoint h p w + 1) mod int (length w)"
          "(get_closest_waypoint h p w + 1) mod int (length w) < int (length w)"
    using assms by simp_all
  show ?thesis
    unfolding get_next_waypoint_value[OF assms] using c m by (simp del: One_nat_def)
qed

section \<open>The copy loop and window extraction: new objects, old objects untouched\<close>

lemma py_mod_Inr: "b \<noteq> 0 \<Longrightarrow> py_mod a b = Inr (a mod b)"
  by (simp add: py_mod_def)

lemma copy_loop_spec:
  assumes "w \<noteq> []"
  shows "\<exists>h' new. copy_loop w is h acc = Inr (h', acc @ new)
     \<and> length new = length is
     \<and> fresh h \<le> fresh h'
     \<and> (\<forall>a<fresh h. poses h' a = poses h a \<and> twists h' a = twists h a)
     \<and> (\<forall>x\<in>set new. fresh h \<le> pose x \<and> pose x < fresh h'
                       \<and> fresh h \<le> twist x \<and> twist x < fresh h')
     \<and> ((\<forall>x\<in>set w. pose x < fresh h \<and> twist x < fresh h) \<longrightarrow>
          (\<forall>k<length is. deref h' (new ! k) = deref h (w ! nat (is ! k mod int (length w)))))"
proof (induction "is" arbitrary: h acc)
  case Nil
  then show ?case by simp
next
  case (Cons i "is")
  define src where "src = w ! nat (i mod int (length w))"
  define h2 where "h2 = h\<lparr>poses := (poses h)(fresh h := poses h (pose src)),
                          twists := (twists h)(Suc (fresh h) := twists h (twist src)),
                          fresh := Suc (Suc (fresh h))\<rparr>"
  define x0 where "x0 = \<lparr>pose = fresh h, twist = Suc (fresh h)\<rparr>"
  have n: "int (length w) \<noteq> 0" using assms by simp
  have r: "0 \<le> i mod int (length w)" "i mod int (length w) < int (length w)"
    using assms by simp_all
  have unfold: "copy_loop w (i # is) h acc = copy_loop w is h2 (acc @ [x0])"
    by (simp add: py_mod_Inr[OF n] py_index_in_range[OF r] deepcopy_pose_def
        deepcopy_twist_def h2_def x0_def src_def)
  from Cons.IH[of h2 "acc @ [x0]"] obtain h' new where ih:
    "copy_loop w is h2 (acc @ [x0]) = Inr (h', (acc @ [x0]) @ new)"
    "length new = length is"
    "fresh h2 \<le> fresh h'"
    "\<forall>a<fresh h2. poses h' a = poses h2 a \<and> twists h' a = twists h2 a"
    "\<forall>x\<in>set new. fresh h2 \<le> pose x \<and> pose x < fresh h'
                       \<and> fresh h2 \<le> twist x \<and> twist x < fresh h'"
    "(\<forall>x\<in>set w. pose x < fresh h2 \<and> twist x < fresh h2) \<longrightarrow>
          (\<forall>k<length is. deref h' (new ! k) = deref h2 (w ! nat (is ! k mod int (length w))))"
    by blast
  have f2: "fresh h2 = Suc (Suc (fresh h))" by (simp add: h2_def)
  have old: "\<And>a. a < fresh h \<Longrightarrow> poses h2 a = poses h a \<and> twists h2 a = twists h a"
    by (simp add: h2_def)
  have 1: "copy_loop w (i # is) h acc = Inr (h', acc @ (x0 # new))"
    using unfold ih(1) by simp
  have 2: "length (x0 # new) = length (i # is)" using ih(2) by simp
  have 3: "fresh h \<le> fresh h'" using ih(3) f2 by simp
  have 4: "\<forall>a<fresh h. poses h' a = poses h a \<and> twists h' a = twists h a"
    using ih(4) f2 old by simp
  have 5: "\<forall>x\<in>set (x0 # new). fresh h \<le> pose x \<and> pose x < fresh h'
                       \<and> fresh h \<le> twist x \<and> twist x < fresh h'"
    using ih(5) ih(3) f2 by (auto simp: x0_def)
  have 6: "\<forall>k<length (i # is). deref h' ((x0 # new) ! k)
              = deref h (w ! nat ((i # is) ! k mod int (length w)))"
    if wf: "\<forall>x\<in>set w. pose x < fresh h \<and> twist x < fresh h"
  proof (intro allI impI)
    fix k assume k: "k < length (i # is)"
    have wf2: "\<forall>x\<in>set w. pose x < fresh h2 \<and> twist x < fresh h2"
      using wf f2 by auto
    have same: "deref h2 y = deref h y" if "y \<in> set w" for y
      using wf that old by (simp add: deref_def)
    show "deref h' ((x0 # new) ! k) = deref h (w ! nat ((i # is) ! k mod int (length w)))"
    proof (cases k)
      case 0
      have "deref h' x0 = deref h2 x0"
        using ih(4) f2 by (simp add: deref_def x0_def)
      also have "\<dots> = deref h src"
        by (simp add: deref_def x0_def h2_def)
      finally show ?thesis using 0 by (simp add: src_def)
    next
      case (Suc k')
      then have k': "k' < length is" using k by simp
      have m: "w ! nat (is ! k' mod int (length w)) \<in> set w"
        using assms by (simp add: nat_less_iff)
      from ih(6) wf2 k' have "deref h' (new ! k') = deref h2 (w ! nat (is ! k' mod int (length w)))"
        by blast
      then show ?thesis using Suc same[OF m] by simp
    qed
  qed
  show ?case using 1 2 3 4 5 6 by blast
qed

lemma extract_window_spec:
  assumes "w \<noteq> []"
  shows "\<exists>h' ws. extract_window h w s e = Inr (h', ws)
     \<and> length ws = nat ((if e < s then e + int (length w) else e) - s + 1)
     \<and> fresh h \<le> fresh h'
     \<and> (\<forall>a<fresh h. poses h' a = poses h a \<and> twists h' a = twists h a)
     \<and> (\<forall>x\<in>set ws. fresh h \<le> pose x \<and> pose x < fresh h'
                       \<and> fresh h \<le> twist x \<and> twist x < fresh h')
     \<and> ((\<forall>x\<in>set w. pose x < fresh h \<and> twist x < fresh h) \<longrightarrow>
          (\<forall>k<length ws. deref h' (ws ! k) = deref h (w ! nat ((s + int k) mod int (length w)))))"
proof -
  define e' where "e' = (if e < s then e + int (length w) else e)"
  from copy_loop_spec[OF assms, of "[s..e']" h "[]"] obtain h' new where c:
    "copy_loop w [s..e'] h [] = Inr (h', [] @ new)"
    "length new = length [s..e']"
    "fresh h \<le> fresh h'"
    "\<forall>a<fresh h. poses h' a = poses h a \<and> twists h' a = twists h a"
    "\<forall>x\<in>set new. fresh h \<le> pose x \<and> pose x < fresh h'
                       \<and> fresh h \<le> twist x \<and> twist x < fresh h'"
    "(\<forall>x\<in>set w. pose x < fresh h \<and> twist x < fresh h) \<longrightarrow>
       (\<forall>k<length [s..e']. deref h' (new ! k) = deref h (w ! nat ([s..e'] ! k mod int (length w))))"
    by blast
  have 1: "extract_window h w s e = Inr (h', new)"
    using c(1) by (simp add: extract_window_def e'_def)
  have 2: "length new = nat (e' - s + 1)" using c(2) by simp
  have 6: "\<forall>k<length new. deref h' (new ! k) = deref h (w ! nat ((s + int k) mod int (length w)))"
    if wf: "\<forall>x\<in>set w. pose x < fresh h \<and> twist x < fresh h"
  proof (intro allI impI)
    fix k assume k: "k < length new"
    then have "s + int k \<le> e'" using 2 by linarith
    then have "[s..e'] ! k = s + int k" by (rule nth_upto)
    moreover have "deref h' (new ! k) = deref h (w ! nat ([s..e'] ! k mod int (length w)))"
      using c(6) wf k c(2) by simp
    ultimately show "deref h' (new ! k) = deref h (w ! nat ((s + int k) mod int (length w)))"
      by simp
  qed
  show ?thesis using 1 2 c(3,4,5) 6 unfolding e'_def by blast
qed

section \<open>Velocity shaping: the two loops and the two passes\<close>

lemma twists_set_linear_x:
  "twists (set_linear_x h a v) b = (if b = a then (twists h a)\<lparr>linear_x := v\<rparr> else twists h b)"
  by (simp add: set_linear_x_def)

lemma speed_set_linear_x:
  "speed (set_linear_x h a v) wp = (if twist wp = a then v else speed h wp)"
  by (simp add: set_linear_x_def speed_def)

lemma pos_set_linear_x [simp]: "pos (set_linear_x h a v) wp = pos h wp"
  by (simp add: set_linear_x_def pos_def)

lemma set_linear_x_same: "v = linear_x (twists h a) \<Longrightarrow> set_linear_x h a v = h"
  by (simp add: set_linear_x_def)

lemma distance_nonneg: "0 \<le> distance p q"
  by (simp add: distance_def Let_def)

subsection \<open>accelerate\<close>

lemma accelerate_loop_mono:
  "accelerate_loop st lsp wps h = Inr h' \<Longrightarrow> linear_x (twists h' a) \<le> linear_x (twists h a)"
proof (induction wps arbitrary: h)
  case Nil
  then show ?case by simp
next
  case (Cons wp wps)
  from Cons.prems obtain vel where v: "math_sqrt (2 * accel st * distance lsp (pos h wp)) = Inr vel"
    and rest: "(if speed h wp > vel then accelerate_loop st lsp wps (set_linear_x h (twist wp) vel)
                else Inr h) = Inr h'"
    by (auto simp: ebind_eq_Inr Let_def)
  show ?case
  proof (cases "speed h wp > vel")
    case True
    with rest have "linear_x (twists h' a) \<le> linear_x (twists (set_linear_x h (twist wp) vel) a)"
      using Cons.IH by simp
    also have "\<dots> \<le> linear_x (twists h a)"
      using True by (simp add: twists_set_linear_x speed_def)
    finally show ?thesis .
  next
    case False
    with rest show ?thesis by simp
  qed
qed

lemma accelerate_loop_nonneg:
  "accelerate_loop st lsp wps h = Inr h' \<Longrightarrow> 0 \<le> linear_x (twists h a)
     \<Longrightarrow> 0 \<le> linear_x (twists h' a)"
proof (induction wps arbitrary: h)
  case Nil
  then show ?case by simp
next
  case (Cons wp wps)
  from Cons.prems(1) obtain vel where v: "math_sqrt (2 * accel st * distance lsp (pos h wp)) = Inr vel"
    and rest: "(if speed h wp > vel then accelerate_loop st lsp wps (set_linear_x h (twist wp) vel)
                else Inr h) = Inr h'"
    by (auto simp: ebind_eq_Inr Let_def)
  from v have "0 \<le> vel" by (simp add: math_sqrt_Inr)
  then have "0 \<le> linear_x (twists (set_linear_x h (twist wp) vel) a)"
    using Cons.prems(2) by (simp add: twists_set_linear_x)
  then show ?case using rest Cons.IH Cons.prems(2) by (auto split: if_splits)
qed

lemma accelerate_loop_frame:
  "accelerate_loop st lsp wps h = Inr h' \<Longrightarrow> a \<notin> twist ` set wps \<Longrightarrow> twists h' a = twists h a"
proof (induction wps arbitrary: h)
  case Nil
  then show ?case by simp
next
  case (Cons wp wps)
  from Cons.prems(1) obtain vel where
    rest: "(if speed h wp > vel then accelerate_loop st lsp wps (set_linear_x h (twist wp) vel)
                else Inr h) = Inr h'"
    by (auto simp: ebind_eq_Inr Let_def)
  have "twists (set_linear_x h (twist wp) vel) a = twists h a"
    using Cons.prems(2) by (auto simp: twists_set_linear_x)
  then show ?case using rest Cons.IH[of "set_linear_x h (twist wp) vel"] Cons.prems(2)
    by (auto split: if_splits)
qed

lemma accelerate_loop_total:
  assumes "0 \<le> accel st"
  shows "\<exists>h'. accelerate_loop st lsp wps h = Inr h'"
proof (induction wps arbitrary: h)
  case Nil
  then show ?case by simp
next
  case (Cons wp wps)
  have "0 \<le> 2 * accel st * distance lsp (pos h wp)"
    using assms distance_nonneg by simp
  then have "math_sqrt (2 * accel st * distance lsp (pos h wp))
     = Inr (sqrt (2 * accel st * distance lsp (pos h wp)))"
    by (simp add: math_sqrt_def)
  then show ?case using Cons.IH by (simp add: Let_def)
qed

lemma accelerate_loop_idem:
  "accelerate_loop st lsp wps h = Inr h' \<Longrightarrow> accelerate_loop st lsp wps h' = Inr h'"
proof (cases wps)
  case Nil
  then show "accelerate_loop st lsp wps h = Inr h' \<Longrightarrow> ?thesis" by simp
next
  case (Cons wp ws)
  assume a: "accelerate_loop st lsp wps h = Inr h'"
  from a Cons obtain vel where v: "math_sqrt (2 * accel st * distance lsp (pos h wp)) = Inr vel"
    and rest: "(if speed h wp > vel then accelerate_loop st lsp ws (set_linear_x h (twist wp) vel)
                else Inr h) = Inr h'"
    by (auto simp: ebind_eq_Inr Let_def)
  have p: "pos h' wp = pos h wp"
    using accelerate_loop_state[OF a] by (simp add: pos_def)
  have "\<not> speed h' wp > vel"
  proof (cases "speed h wp > vel")
    case True
    with rest have "linear_x (twists h' (twist wp))
        \<le> linear_x (twists (set_linear_x h (twist wp) vel) (twist wp))"
      using accelerate_loop_mono by simp
    then show ?thesis by (simp add: twists_set_linear_x speed_def)
  next
    case False
    with rest show ?thesis by simp
  qed
  then show ?thesis using Cons v p by (simp add: Let_def)
qed

subsection \<open>decelerate\<close>

lemma decelerate_loop_state:
  "decelerate_loop st lst wps h = Inr h' \<Longrightarrow> poses h' = poses h \<and> fresh h' = fresh h"
proof (induction wps arbitrary: h)
  case Nil
  then show ?case by simp
next
  case (Cons wp wps)
  then show ?case
    by (fastforce simp: ebind_eq_Inr Let_def)
qed

lemma decelerate_loop_mono:
  "decelerate_loop st lst wps h = Inr h' \<Longrightarrow> linear_x (twists h' a) \<le> linear_x (twists h a)"
proof (induction wps arbitrary: h)
  case Nil
  then show ?case by simp
next
  case (Cons wp wps)
  from Cons.prems obtain vel where
    rest: "decelerate_loop st lst wps (set_linear_x h (twist wp) (min vel (speed h wp))) = Inr h'"
    by (auto simp: ebind_eq_Inr Let_def)
  have "linear_x (twists h' a)
      \<le> linear_x (twists (set_linear_x h (twist wp) (min vel (speed h wp))) a)"
    using rest by (rule Cons.IH)
  also have "\<dots> \<le> linear_x (twists h a)"
    by (simp add: twists_set_linear_x speed_def)
  finally show ?case .
qed

lemma decelerate_loop_nonneg:
  "decelerate_loop st lst wps h = Inr h' \<Longrightarrow> 0 \<le> linear_x (twists h a)
     \<Longrightarrow> 0 \<le> linear_x (twists h' a)"
proof (induction wps arbitrary: h)
  case Nil
  then show ?case by simp
next
  case (Cons wp wps)
  from Cons.prems(1) obtain vel where
    v: "math_sqrt (2 * decel st * max 0 (distance (pos h wp) (pos h lst) - STOP_BUFFER)) = Inr vel"
    and rest: "decelerate_loop st lst wps (set_linear_x h (twist wp) (min vel (speed h wp))) = Inr h'"
    by (auto simp: ebind_eq_Inr Let_def)
  from v have "0 \<le> vel" by (simp add: math_sqrt_Inr)
  then have "0 \<le> linear_x (twists (set_linear_x h (twist wp) (min vel (speed h wp))) a)"
    using Cons.prems(2) by (auto simp: twists_set_linear_x speed_def)
  then show ?case using rest Cons.IH by blast
qed

lemma decelerate_loop_frame:
  "decelerate_loop st lst wps h = Inr h' \<Longrightarrow> a \<notin> twist ` set wps \<Longrightarrow> twists h' a = twists h a"
proof (induction wps arbitrary: h)
  case Nil
  then show ?case by simp
next
  case (Cons wp wps)
  from Cons.prems(1) obtain vel where
    rest: "decelerate_loop st lst wps (set_linear_x h (twist wp) (min vel (speed h wp))) = Inr h'"
    by (auto simp: ebind_eq_Inr Let_def)
  have "twists (set_linear_x h (twist wp) (min vel (speed h wp))) a = twists h a"
    using Cons.prems(2) by (auto simp: twists_set_linear_x)
  then show ?case using Cons.IH[OF rest] Cons.prems(2) by auto
qed

lemma decelerate_loop_total:
  assumes "0 \<le> decel st"
  shows "\<exists>h'. decelerate_loop st lst wps h = Inr h'"
proof (induction wps arbitrary: h)
  case Nil
  then show ?case by simp
next
  case (Cons wp wps)
  have "0 \<le> 2 * decel st * max 0 (distance (pos h wp) (pos h lst) - STOP_BUFFER)"
    using assms by simp
  then have "math_sqrt (2 * decel st * max 0 (distance (pos h wp) (pos h lst) - STOP_BUFFER))
     = Inr (sqrt (2 * decel st * max 0 (distance (pos h wp) (pos h lst) - STOP_BUFFER)))"
    by (simp add: math_sqrt_def)
  then show ?case using Cons.IH by (simp add: Let_def)
qed

lemma decelerate_loop_bound:
  "decelerate_loop st lst wps h = Inr h' \<Longrightarrow> wp \<in> set wps \<Longrightarrow>
     \<exists>vel. math_sqrt (2 * decel st * max 0 (distance (pos h wp) (pos h lst) - STOP_BUFFER)) = Inr vel
         \<and> speed h' wp \<le> vel"
proof (induction wps arbitrary: h)
  case Nil
  then show ?case by simp
next
  case (Cons x wps)
  from Cons.prems(1) obtain vel where
    v: "math_sqrt (2 * decel st * max 0 (distance (pos h x) (pos h lst) - STOP_BUFFER)) = Inr vel"
    and rest: "decelerate_loop st lst wps (set_linear_x h (twist x) (min vel (speed h x))) = Inr h'"
    by (auto simp: ebind_eq_Inr Let_def)
  show ?case
  proof (cases "wp = x")
    case True
    have "speed h' x \<le> speed (set_linear_x h (twist x) (min vel (speed h x))) x"
      using decelerate_loop_mono[OF rest, of "twist x"] by (simp add: speed_def)
    also have "\<dots> \<le> vel" by (simp add: speed_set_linear_x)
    finally show ?thesis using v True by blast
  next
    case False
    with Cons.prems(2) have "wp \<in> set wps" by simp
    from Cons.IH[OF rest this] show ?thesis by simp
  qed
qed

lemma decelerate_loop_fixpoint:
  "(\<forall>wp\<in>set wps. \<exists>vel.
       math_sqrt (2 * decel st * max 0 (distance (pos h wp) (pos h lst) - STOP_BUFFER)) = Inr vel
       \<and> speed h wp \<le> vel)
   \<Longrightarrow> decelerate_loop st lst wps h = Inr h"
proof (induction wps)
  case Nil
  then show ?case by simp
next
  case (Cons x wps)
  from Cons.prems obtain vel where
    v: "math_sqrt (2 * decel st * max 0 (distance (pos h x) (pos h lst) - STOP_BUFFER)) = Inr vel"
    and le: "speed h x \<le> vel"
    by auto
  have "set_linear_x h (twist x) (min vel (speed h x)) = h"
    using le by (intro set_linear_x_same) (simp add: speed_def min_def)
  then show ?case using v Cons by (simp add: Let_def)
qed

lemma py_index_last: "ws \<noteq> [] \<Longrightarrow> py_index ws (int (length ws) - 1) = Inr (last ws)"
  by (simp add: py_index_def Let_def last_conv_nth nat_diff_distrib')

lemma py_index_last_Inr: "py_index ws (int (length ws) - 1) = Inr x \<Longrightarrow> ws \<noteq> [] \<and> x = last ws"
  by (cases "ws = []") (simp_all add: py_index_last, simp add: py_index_def)

lemma decelerate_Inr:
  "decelerate h st ws = Inr (h', ws') \<longleftrightarrow>
     ws \<noteq> [] \<and> ws' = ws
     \<and> decelerate_loop st (last ws) ws (set_linear_x h (twist (last ws)) 0) = Inr h'"
  by (auto simp: decelerate_def ebind_eq_Inr py_index_last dest: py_index_last_Inr)

lemma decelerate_props:
  assumes "decelerate h st ws = Inr (h', ws')"
  shows "ws' = ws" and "ws \<noteq> []" and "poses h' = poses h" and "fresh h' = fresh h"
    and "speed h' (last ws) = 0"
    and "a \<notin> twist ` set ws \<Longrightarrow> twists h' a = twists h a"
    and "0 \<le> linear_x (twists h a) \<Longrightarrow>
           0 \<le> linear_x (twists h' a) \<and> linear_x (twists h' a) \<le> linear_x (twists h a)"
proof -
  let ?h1 = "set_linear_x h (twist (last ws)) 0"
  from assms have w: "ws' = ws" "ws \<noteq> []"
    and l: "decelerate_loop st (last ws) ws ?h1 = Inr h'"
    by (simp_all add: decelerate_Inr)
  show "ws' = ws" "ws \<noteq> []" by fact+
  show "poses h' = poses h" "fresh h' = fresh h"
    using decelerate_loop_state[OF l] by simp_all
  have z: "linear_x (twists ?h1 (twist (last ws))) = 0"
    by (simp add: twists_set_linear_x)
  have "linear_x (twists h' (twist (last ws))) \<le> 0"
    using decelerate_loop_mono[OF l, of "twist (last ws)"] z by simp
  moreover have "0 \<le> linear_x (twists h' (twist (last ws)))"
    using decelerate_loop_nonneg[OF l, of "twist (last ws)"] z by simp
  ultimately show "speed h' (last ws) = 0" by (simp add: speed_def)
  show "twists h' a = twists h a" if "a \<notin> twist ` set ws"
  proof -
    have "a \<noteq> twist (last ws)" using that w(2) by auto
    then have "twists ?h1 a = twists h a" by (simp add: twists_set_linear_x)
    then show ?thesis using decelerate_loop_frame[OF l that] by simp
  qed
  show "0 \<le> linear_x (twists h' a) \<and> linear_x (twists h' a) \<le> linear_x (twists h a)"
    if "0 \<le> linear_x (twists h a)"
  proof -
    have b: "0 \<le> linear_x (twists ?h1 a)" "linear_x (twists ?h1 a) \<le> linear_x (twists h a)"
      using that by (auto simp: twists_set_linear_x)
    show ?thesis
      using decelerate_loop_nonneg[OF l b(1)] decelerate_loop_mono[OF l, of a] b(2) by simp
  qed
qed

lemma decelerate_total:
  assumes "ws \<noteq> []" and "0 \<le> decel st"
  shows "\<exists>h'. decelerate h st ws = Inr (h', ws)"
  using decelerate_loop_total[OF assms(2)] assms(1) by (simp add: decelerate_Inr)

lemma decelerate_zero_in_buffer:
  assumes "decelerate h st ws = Inr (h', ws')" and "wp \<in> set ws"
    and "distance (pos h wp) (pos h (last ws)) \<le> STOP_BUFFER" and "0 \<le> speed h wp"
  shows "speed h' wp = 0"
proof -
  let ?h1 = "set_linear_x h (twist (last ws)) 0"
  from assms(1) have l: "decelerate_loop st (last ws) ws ?h1 = Inr h'"
    by (simp add: decelerate_Inr)
  from decelerate_loop_bound[OF l assms(2)] assms(3)
  have "speed h' wp \<le> 0" by (auto simp: math_sqrt_Inr)
  moreover have "0 \<le> speed h' wp"
    using decelerate_props(7)[OF assms(1), of "twist wp"] assms(4) by (simp add: speed_def)
  ultimately show ?thesis by simp
qed

lemma decelerate_idem:
  assumes "decelerate h st ws = Inr (h', ws')"
  shows "decelerate h' st ws' = Inr (h', ws')"
proof -
  let ?h1 = "set_linear_x h (twist (last ws)) 0"
  from assms have w: "ws' = ws" "ws \<noteq> []"
    and l: "decelerate_loop st (last ws) ws ?h1 = Inr h'"
    by (simp_all add: decelerate_Inr)
  have p: "poses h' = poses h" using decelerate_props(3)[OF assms] .
  have "speed h' (last ws) = 0" using decelerate_props(5)[OF assms] .
  then have s: "set_linear_x h' (twist (last ws)) 0 = h'"
    by (intro set_linear_x_same) (simp add: speed_def)
  have "\<forall>wp\<in>set ws. \<exists>vel.
       math_sqrt (2 * decel st * max 0 (distance (pos h' wp) (pos h' (last ws)) - STOP_BUFFER)) = Inr vel
       \<and> speed h' wp \<le> vel"
    using decelerate_loop_bound[OF l] p by (simp add: pos_def)
  then have "decelerate_loop st (last ws) ws h' = Inr h'"
    by (rule decelerate_loop_fixpoint)
  then show ?thesis using w s by (simp add: decelerate_Inr)
qed

lemma set_starting_point_fields:
  assumes "set_starting_point st = Inr st1"
  shows "braking st1 = braking st" and "base_waypoints st1 = base_waypoints st"
    and "accel st1 = accel st" and "decel st1 = decel st"
    and "traffic_waypoint st1 = traffic_waypoint st"
    and "current_pose st1 = current_pose st" and "current_velocity st1 = current_velocity st"
  using assms by (auto simp: set_starting_point_def split: if_splits option.splits)

lemma set_starting_point_idem:
  assumes "set_starting_point st = Inr st1"
  shows "set_starting_point st1 = Inr st1"
  using assms by (auto simp: set_starting_point_def split: if_splits option.splits)

lemma set_starting_point_total:
  assumes "current_pose st \<noteq> None"
  shows "\<exists>st1. set_starting_point st = Inr st1"
  using assms by (auto simp: set_starting_point_def)

lemma accelerate_Inr:
  "accelerate h st ws = Inr (h', st', ws') \<longleftrightarrow>
     set_starting_point st = Inr st' \<and> ws' = ws
     \<and> (case last_starting_point st' of
          None \<Rightarrow> h' = h
        | Some lsp \<Rightarrow> accelerate_loop st' lsp ws h = Inr h')"
  by (auto simp: accelerate_def ebind_eq_Inr split: option.splits)

lemma accelerate_props:
  assumes "accelerate h st ws = Inr (h', st', ws')"
  shows "ws' = ws" and "poses h' = poses h" and "fresh h' = fresh h"
    and "braking st' = braking st" and "base_waypoints st' = base_waypoints st"
    and "a \<notin> twist ` set ws \<Longrightarrow> twists h' a = twists h a"
    and "linear_x (twists h' a) \<le> linear_x (twists h a)"
    and "0 \<le> linear_x (twists h a) \<Longrightarrow> 0 \<le> linear_x (twists h' a)"
proof -
  from assms have s: "set_starting_point st = Inr st'" and w: "ws' = ws"
    and c: "h' = h \<or> (\<exists>lsp. accelerate_loop st' lsp ws h = Inr h')"
    by (auto simp: accelerate_Inr split: option.splits)
  show "ws' = ws" by fact
  show "braking st' = braking st" "base_waypoints st' = base_waypoints st"
    using set_starting_point_fields[OF s] by simp_all
  show "poses h' = poses h" "fresh h' = fresh h"
    using c accelerate_loop_state by blast+
  show "twists h' a = twists h a" if "a \<notin> twist ` set ws"
    using c accelerate_loop_frame that by blast
  show "linear_x (twists h' a) \<le> linear_x (twists h a)"
    using c accelerate_loop_mono by fastforce
  show "0 \<le> linear_x (twists h' a)" if "0 \<le> linear_x (twists h a)"
    using c accelerate_loop_nonneg that by blast
qed

lemma accelerate_total:
  assumes "0 \<le> accel st" and "current_pose st \<noteq> None"
  shows "\<exists>h' st'. accelerate h st ws = Inr (h', st', ws)"
proof -
  from set_starting_point_total[OF assms(2)] obtain st1 where
    s: "set_starting_point st = Inr st1" by blast
  have a: "0 \<le> accel st1" using assms(1) set_starting_point_fields(3)[OF s] by simp
  show ?thesis
  proof (cases "last_starting_point st1")
    case None
    then show ?thesis using s by (simp add: accelerate_Inr)
  next
    case (Some lsp)
    from accelerate_loop_total[OF a, of lsp ws h] obtain h' where
      "accelerate_loop st1 lsp ws h = Inr h'" by blast
    then show ?thesis using s Some by (auto simp: accelerate_Inr)
  qed
qed

lemma accelerate_idem:
  assumes "accelerate h st ws = Inr (h', st', ws')"
  shows "accelerate h' st' ws' = Inr (h', st', ws')"
proof -
  from assms have s: "set_starting_point st = Inr st'" and w: "ws' = ws"
    and c: "case last_starting_point st' of
          None \<Rightarrow> h' = h
        | Some lsp \<Rightarrow> accelerate_loop st' lsp ws h = Inr h'"
    by (simp_all add: accelerate_Inr)
  have "case last_starting_point st' of
          None \<Rightarrow> h' = h'
        | Some lsp \<Rightarrow> accelerate_loop st' lsp ws h' = Inr h'"
    using c accelerate_loop_idem by (auto split: option.splits)
  then show ?thesis
    using set_starting_point_idem[OF s] w by (simp add: accelerate_Inr)
qed

lemma accelerate_restart:
  assumes "accelerate h st ws = Inr (h', st', ws')"
  shows "accelerate h' st ws' = Inr (h', st', ws')"
proof -
  from assms have s: "set_starting_point st = Inr st'" and w: "ws' = ws"
    and c: "case last_starting_point st' of
          None \<Rightarrow> h' = h
        | Some lsp \<Rightarrow> accelerate_loop st' lsp ws h = Inr h'"
    by (simp_all add: accelerate_Inr)
  have "case last_starting_point st' of
          None \<Rightarrow> h' = h'
        | Some lsp \<Rightarrow> accelerate_loop st' lsp ws h' = Inr h'"
    using c accelerate_loop_idem by (auto split: option.splits)
  then show ?thesis
    using s w by (simp add: accelerate_Inr)
qed

section \<open>Extraction followed by shaping\<close>

lemma extract_window_empty_route:
  assumes "extract_window h [] s e = Inr (h1, ws)"
  shows "h1 = h \<and> ws = []"
proof (cases "[s..(if e < s then e + int (length ([]::Waypoint list)) else e)]")
  case Nil
  then show ?thesis using assms by (simp add: extract_window_def)
next
  case (Cons i "is")
  then show ?thesis using assms by (simp add: extract_window_def py_mod_def)
qed

lemma get_final_waypoints_Inr:
  "get_final_waypoints h st w s e = Inr (h', st', ws') \<longleftrightarrow>
     (\<exists>h1 ws. extract_window h w s e = Inr (h1, ws)
        \<and> (if braking st then decelerate h1 st ws = Inr (h', ws') \<and> st' = st
            else accelerate h1 st ws = Inr (h', st', ws')))"
  by (auto simp: get_final_waypoints_def ebind_eq_Inr)

lemma extract_window_frame:
  assumes "extract_window h w s e = Inr (h1, ws)"
  shows "fresh h \<le> fresh h1"
    and "\<forall>a<fresh h. poses h1 a = poses h a \<and> twists h1 a = twists h a"
    and "\<forall>x\<in>set ws. fresh h \<le> pose x \<and> pose x < fresh h1
                       \<and> fresh h \<le> twist x \<and> twist x < fresh h1"
proof -
  have "fresh h \<le> fresh h1
    \<and> (\<forall>a<fresh h. poses h1 a = poses h a \<and> twists h1 a = twists h a)
    \<and> (\<forall>x\<in>set ws. fresh h \<le> pose x \<and> pose x < fresh h1
                       \<and> fresh h \<le> twist x \<and> twist x < fresh h1)"
  proof (cases "w = []")
    case True
    then show ?thesis using extract_window_empty_route assms by fastforce
  next
    case False
    from extract_window_spec[OF False, of h s e] assms show ?thesis by auto
  qed
  then show "fresh h \<le> fresh h1"
    and "\<forall>a<fresh h. poses h1 a = poses h a \<and> twists h1 a = twists h a"
    and "\<forall>x\<in>set ws. fresh h \<le> pose x \<and> pose x < fresh h1
                       \<and> fresh h \<le> twist x \<and> twist x < fresh h1"
    by blast+
qed

lemma shaping_props:
  assumes "if braking st then decelerate h1 st ws = Inr (h', ws') \<and> st' = st
            else accelerate h1 st ws = Inr (h', st', ws')"
  shows "ws' = ws" and "poses h' = poses h1" and "fresh h' = fresh h1"
    and "braking st' = braking st" and "base_waypoints st' = base_waypoints st"
    and "a \<notin> twist ` set ws \<Longrightarrow> twists h' a = twists h1 a"
    and "0 \<le> linear_x (twists h1 a) \<Longrightarrow>
           0 \<le> linear_x (twists h' a) \<and> linear_x (twists h' a) \<le> linear_x (twists h1 a)"
proof -
  show "ws' = ws" using assms decelerate_props(1) accelerate_props(1)
    by (cases "braking st") auto
  show "poses h' = poses h1" using assms decelerate_props(3) accelerate_props(2)
    by (cases "braking st") auto
  show "fresh h' = fresh h1" using assms decelerate_props(4) accelerate_props(3)
    by (cases "braking st") auto
  show "braking st' = braking st" using assms accelerate_props(4)
    by (cases "braking st") auto
  show "base_waypoints st' = base_waypoints st" using assms accelerate_props(5)
    by (cases "braking st") auto
  show "twists h' a = twists h1 a" if "a \<notin> twist ` set ws"
    using assms decelerate_props(6)[OF _ that] accelerate_props(6)[OF _ that]
    by (cases "braking st") auto
  show "0 \<le> linear_x (twists h' a) \<and> linear_x (twists h' a) \<le> linear_x (twists h1 a)"
    if "0 \<le> linear_x (twists h1 a)"
    using assms decelerate_props(7)[OF _ that] accelerate_props(7) accelerate_props(8)[OF _ that]
    by (cases "braking st") auto
qed

lemma get_final_waypoints_frame:
  assumes "get_final_waypoints h st w s e = Inr (h', st', ws')"
  shows "braking st' = braking st" and "base_waypoints st' = base_waypoints st"
    and "\<forall>a<fresh h. poses h' a = poses h a \<and> twists h' a = twists h a"
    and "\<forall>x\<in>set ws'. fresh h \<le> pose x \<and> fresh h \<le> twist x"
    and "fresh h \<le> fresh h'"
proof -
  from assms obtain h1 ws where x: "extract_window h w s e = Inr (h1, ws)"
    and sh: "if braking st then decelerate h1 st ws = Inr (h', ws') \<and> st' = st
            else accelerate h1 st ws = Inr (h', st', ws')"
    by (auto simp: get_final_waypoints_Inr)
  note f = extract_window_frame[OF x]
  note p = shaping_props[OF sh]
  show "braking st' = braking st" "base_waypoints st' = base_waypoints st" by (rule p)+
  show "\<forall>x\<in>set ws'. fresh h \<le> pose x \<and> fresh h \<le> twist x"
    using f(3) p(1) by simp
  show "fresh h \<le> fresh h'" using f(1) p(3) by simp
  show "\<forall>a<fresh h. poses h' a = poses h a \<and> twists h' a = twists h a"
  proof (intro allI impI)
    fix a assume a: "a < fresh h"
    then have "a \<notin> twist ` set ws" using f(3) by auto
    then have "twists h' a = twists h1 a" by (rule p(6))
    then show "poses h' a = poses h a \<and> twists h' a = twists h a"
      using f(2) a p(2) by simp
  qed
qed

lemma get_final_waypoints_window:
  assumes "get_final_waypoints h st w s e = Inr (h', st', ws')" and "w \<noteq> []"
    and wf: "\<forall>x\<in>set w. pose x < fresh h \<and> twist x < fresh h"
  shows "length ws' = nat ((if e < s then e + int (length w) else e) - s + 1)"
    and "k < length ws' \<Longrightarrow>
          poses h' (pose (ws' ! k)) = poses h (pose (w ! nat ((s + int k) mod int (length w))))"
    and "k < length ws' \<Longrightarrow>
          0 \<le> linear_x (twists h (twist (w ! nat ((s + int k) mod int (length w))))) \<Longrightarrow>
          0 \<le> speed h' (ws' ! k) \<and>
          speed h' (ws' ! k) \<le> linear_x (twists h (twist (w ! nat ((s + int k) mod int (length w)))))"
proof -
  from assms(1) obtain h1 ws where x: "extract_window h w s e = Inr (h1, ws)"
    and sh: "if braking st then decelerate h1 st ws = Inr (h', ws') \<and> st' = st
            else accelerate h1 st ws = Inr (h', st', ws')"
    by (auto simp: get_final_waypoints_Inr)
  note p = shaping_props[OF sh]
  from extract_window_spec[OF assms(2), of h s e] x wf
  have len: "length ws = nat ((if e < s then e + int (length w) else e) - s + 1)"
    and d: "\<forall>k<length ws. deref h1 (ws ! k) = deref h (w ! nat ((s + int k) mod int (length w)))"
    by auto
  show "length ws' = nat ((if e < s then e + int (length w) else e) - s + 1)"
    using len p(1) by simp
  show "poses h' (pose (ws' ! k)) = poses h (pose (w ! nat ((s + int k) mod int (length w))))"
    if "k < length ws'"
  proof -
    have "deref h1 (ws ! k) = deref h (w ! nat ((s + int k) mod int (length w)))"
      using d that p(1) by simp
    then show ?thesis using p(1,2) by (simp add: deref_def)
  qed
  show "0 \<le> speed h' (ws' ! k) \<and>
          speed h' (ws' ! k) \<le> linear_x (twists h (twist (w ! nat ((s + int k) mod int (length w)))))"
    if "k < length ws'"
      and "0 \<le> linear_x (twists h (twist (w ! nat ((s + int k) mod int (length w)))))"
  proof -
    have "deref h1 (ws ! k) = deref h (w ! nat ((s + int k) mod int (length w)))"
      using d that(1) p(1) by simp
    then have e: "linear_x (twists h1 (twist (ws ! k)))
        = linear_x (twists h (twist (w ! nat ((s + int k) mod int (length w)))))"
      by (simp add: deref_def)
    then have "0 \<le> linear_x (twists h1 (twist (ws ! k)))" using that(2) by simp
    from p(7)[OF this] e show ?thesis using p(1) by (simp add: speed_def)
  qed
qed

section \<open>The cycle\<close>

lemma get_next_waypoint_empty: "get_next_waypoint h p [] = Inl ZeroDivisionError"
  by (simp add: get_next_waypoint_def py_mod_def)

lemma loop_skip:
  "base_waypoints st = None \<or> current_pose st = None \<Longrightarrow> loop h st = Inr (h, st, None)"
  by (auto simp: loop_def split: option.splits)

lemma loop_unfold:
  assumes "base_waypoints st = Some w" and "current_pose st = Some p"
    and "get_next_waypoint h p w = Inr n" and "py_index w (traffic_waypoint st) = Inr twp"
    and "\<bar>current_velocity st\<bar> < 2 ^ 512"
  shows "loop h st =
     (if traffic_waypoint st = - 1
      then ebind (get_final_waypoints h (st\<lparr>braking := False\<rparr>) w n (n + LOOKAHEAD_WPS)) publish
      else if \<not> braking st \<and> distance (position p) (pos h twp)
                   < (current_velocity st)\<^sup>2 / (2 * MAX_DECEL) + STOP_BUFFER
      then ebind (get_final_waypoints h st w n (n + LOOKAHEAD_WPS)) publish
      else ebind (get_final_waypoints h (st\<lparr>braking := True\<rparr>) w n (traffic_waypoint st)) publish)"
  using assms by (simp add: loop_def Let_def float_square_def)

lemma loop_overflow:
  assumes "base_waypoints st = Some w" and "current_pose st = Some p"
    and "get_next_waypoint h p w = Inr n" and "py_index w (traffic_waypoint st) = Inr twp"
    and "2 ^ 512 \<le> \<bar>current_velocity st\<bar>"
  shows "loop h st = Inl OverflowError"
  using assms by (simp add: loop_def Let_def float_square_def)

lemma publish_Inr:
  "ebind m publish = Inr (h', st', out) \<longleftrightarrow>
     (\<exists>ws. m = Inr (h', st', ws) \<and> out = Some (map (deref h') ws))"
  by (auto simp: ebind_eq_Inr publish_def)

lemma loop_Inr:
  assumes "loop h st = Inr (h', st', out)"
    and "base_waypoints st = Some w" and "current_pose st = Some p"
  shows "\<exists>n twp stx e ws.
      get_next_waypoint h p w = Inr n \<and> py_index w (traffic_waypoint st) = Inr twp
    \<and> \<bar>current_velocity st\<bar> < 2 ^ 512
    \<and> get_final_waypoints h stx w n e = Inr (h', st', ws)
    \<and> out = Some (map (deref h') ws)
    \<and> ((traffic_waypoint st = - 1 \<and> stx = st\<lparr>braking := False\<rparr> \<and> e = n + LOOKAHEAD_WPS)
       \<or> (traffic_waypoint st \<noteq> - 1 \<and> \<not> braking st \<and> stx = st \<and> e = n + LOOKAHEAD_WPS)
       \<or> (traffic_waypoint st \<noteq> - 1 \<and> stx = st\<lparr>braking := True\<rparr> \<and> e = traffic_waypoint st))"
proof -
  from assms obtain n where n: "get_next_waypoint h p w = Inr n"
    by (cases "get_next_waypoint h p w") (simp_all add: loop_def)
  from assms n obtain twp where t: "py_index w (traffic_waypoint st) = Inr twp"
    by (cases "py_index w (traffic_waypoint st)") (simp_all add: loop_def Let_def)
  have v: "\<bar>current_velocity st\<bar> < 2 ^ 512"
  proof (rule ccontr)
    assume "\<not> \<bar>current_velocity st\<bar> < 2 ^ 512"
    then have "2 ^ 512 \<le> \<bar>current_velocity st\<bar>" by simp
    from loop_overflow[OF assms(2,3) n t this] assms(1) show False by simp
  qed
  from assms(1) show ?thesis
    unfolding loop_unfold[OF assms(2,3) n t v] using n t v
    by (auto simp: publish_Inr split: if_splits)
qed

lemma loop_index_error:
  assumes "base_waypoints st = Some w" and "current_pose st = Some p" and "w \<noteq> []"
    and "traffic_waypoint st < - int (length w) \<or> int (length w) \<le> traffic_waypoint st"
  shows "loop h st = Inl IndexError"
proof -
  from get_next_waypoint_range[OF assms(3), of h p] obtain n where
    "get_next_waypoint h p w = Inr n" by blast
  then show ?thesis
    using assms(1,2) py_index_out_of_range[OF assms(4)] by (simp add: loop_def Let_def)
qed

lemma get_final_waypoints_total:
  assumes "w \<noteq> []"
    and "braking st \<longrightarrow> 0 \<le> decel st"
    and "\<not> braking st \<longrightarrow> 0 \<le> accel st \<and> current_pose st \<noteq> None"
    and "s \<le> (if e < s then e + int (length w) else e)"
  shows "\<exists>h' st' ws'. get_final_waypoints h st w s e = Inr (h', st', ws')"
proof -
  from extract_window_spec[OF assms(1), of h s e] obtain h1 ws where
    x: "extract_window h w s e = Inr (h1, ws)"
    and len: "length ws = nat ((if e < s then e + int (length w) else e) - s + 1)"
    by blast
  have ne: "ws \<noteq> []" using len assms(4) by auto
  show ?thesis
  proof (cases "braking st")
    case True
    with assms(2) have "0 \<le> decel st" by simp
    from decelerate_total[OF ne this, of h1] x True show ?thesis
      by (auto simp: get_final_waypoints_Inr)
  next
    case False
    with assms(3) have "0 \<le> accel st" "current_pose st \<noteq> None" by simp_all
    from accelerate_total[OF this, of h1 ws] x False show ?thesis
      by (auto simp: get_final_waypoints_Inr)
  qed
qed

lemma loop_emits:
  assumes "base_waypoints st = Some w" and "current_pose st = Some p" and "w \<noteq> []"
    and "0 \<le> accel st" and "0 \<le> decel st"
    and "traffic_waypoint st = - 1
         \<or> (0 \<le> traffic_waypoint st \<and> traffic_waypoint st < int (length w))"
    and v: "\<bar>current_velocity st\<bar> < 2 ^ 512"
  shows "\<exists>h' st' out. loop h st = Inr (h', st', Some out)"
proof -
  from get_next_waypoint_range[OF assms(3), of h p] obtain n where
    n: "get_next_waypoint h p w = Inr n" "0 \<le> n" "n < int (length w)" by blast
  from assms(3,6) obtain twp where t: "py_index w (traffic_waypoint st) = Inr twp"
    by (auto simp: py_index_def Let_def)
  note u = loop_unfold[OF assms(1,2) n(1) t v]
  have cruise: "\<exists>h' st' ws. get_final_waypoints h sx w n (n + LOOKAHEAD_WPS) = Inr (h', st', ws)"
    if "\<not> braking sx" "accel sx = accel st" "current_pose sx = current_pose st" for sx
    using that assms(2,4) by (intro get_final_waypoints_total[OF assms(3)])
      (simp_all add: LOOKAHEAD_WPS_def)
  show ?thesis
  proof (cases "traffic_waypoint st = - 1")
    case True
    from cruise[of "st\<lparr>braking := False\<rparr>"] obtain h' st' ws where
      "get_final_waypoints h (st\<lparr>braking := False\<rparr>) w n (n + LOOKAHEAD_WPS) = Inr (h', st', ws)"
      by auto
    then show ?thesis using u True by (simp add: publish_def)
  next
    case False
    with assms(6) have r: "0 \<le> traffic_waypoint st" "traffic_waypoint st < int (length w)"
      by simp_all
    show ?thesis
    proof (cases "\<not> braking st \<and> distance (position p) (pos h twp)
                   < (current_velocity st)\<^sup>2 / (2 * MAX_DECEL) + STOP_BUFFER")
      case True
      from cruise[of st] True obtain h' st' ws where
        "get_final_waypoints h st w n (n + LOOKAHEAD_WPS) = Inr (h', st', ws)"
        by auto
      then show ?thesis using u True False by (simp add: publish_def)
    next
      case stop: False
      have "\<exists>h' st' ws. get_final_waypoints h (st\<lparr>braking := True\<rparr>) w n (traffic_waypoint st)
               = Inr (h', st', ws)"
        using assms(5) r n(2,3) by (intro get_final_waypoints_total[OF assms(3)]) auto
      then obtain h' st' ws where
        "get_final_waypoints h (st\<lparr>braking := True\<rparr>) w n (traffic_waypoint st) = Inr (h', st', ws)"
        by blast
      then show ?thesis using u stop False by (simp add: publish_def)
    qed
  qed
qed

lemma loop_cruise:
  assumes "base_waypoints st = Some w" and "current_pose st = Some p" and "w \<noteq> []"
    and "traffic_waypoint st = - 1" and "0 \<le> accel st"
    and v: "\<bar>current_velocity st\<bar> < 2 ^ 512"
    and wf: "\<forall>x\<in>set w. pose x < fresh h \<and> twist x < fresh h"
  shows "\<exists>h' st' out next_wp.
      get_next_waypoint h p w = Inr next_wp
    \<and> loop h st = Inr (h', st', Some out)
    \<and> \<not> braking st'
    \<and> int (length out) = LOOKAHEAD_WPS + 1
    \<and> (\<forall>k<length out.
          fst (out ! k) = poses h (pose (w ! nat ((next_wp + int k) mod int (length w)))))"
proof -
  from get_next_waypoint_range[OF assms(3), of h p] obtain n where
    n: "get_next_waypoint h p w = Inr n" by blast
  have t: "py_index w (traffic_waypoint st) = Inr (last w)"
    using assms(3,4) py_index_last[OF assms(3)] by (simp add: py_index_def Let_def)
  have "\<exists>h' st' ws. get_final_waypoints h (st\<lparr>braking := False\<rparr>) w n (n + LOOKAHEAD_WPS)
      = Inr (h', st', ws)"
    using assms(2,5) by (intro get_final_waypoints_total[OF assms(3)])
      (simp_all add: LOOKAHEAD_WPS_def)
  then obtain h' st' ws where
    g: "get_final_waypoints h (st\<lparr>braking := False\<rparr>) w n (n + LOOKAHEAD_WPS) = Inr (h', st', ws)"
    by blast
  have l: "loop h st = Inr (h', st', Some (map (deref h') ws))"
    using loop_unfold[OF assms(1,2) n t v] assms(4) g by (simp add: publish_def)
  have b: "\<not> braking st'" using get_final_waypoints_frame(1)[OF g] by simp
  have len: "length ws = nat (LOOKAHEAD_WPS + 1)"
    using get_final_waypoints_window(1)[OF g assms(3) wf] by (simp add: LOOKAHEAD_WPS_def)
  have p: "\<forall>k<length (map (deref h') ws).
          fst (map (deref h') ws ! k) = poses h (pose (w ! nat ((n + int k) mod int (length w))))"
    using get_final_waypoints_window(2)[OF g assms(3) wf] by (simp add: deref_def)
  have "int (length (map (deref h') ws)) = LOOKAHEAD_WPS + 1"
    using len by (simp add: LOOKAHEAD_WPS_def)
  with n l b p show ?thesis by blast
qed

lemma loop_speeds:
  assumes "loop h st = Inr (h', st', Some out)"
    and "base_waypoints st = Some w" and "current_pose st = Some p"
    and wf: "\<forall>x\<in>set w. pose x < fresh h \<and> twist x < fresh h"
    and nn: "\<forall>x\<in>set w. 0 \<le> speed h x"
    and k: "k < length out"
  shows "\<exists>next_wp. get_next_waypoint h p w = Inr next_wp
     \<and> 0 \<le> linear_x (snd (out ! k))
     \<and> linear_x (snd (out ! k)) \<le> speed h (w ! nat ((next_wp + int k) mod int (length w)))"
proof -
  from loop_Inr[OF assms(1,2,3)] obtain n stx e ws where
    n: "get_next_waypoint h p w = Inr n"
    and g: "get_final_waypoints h stx w n e = Inr (h', st', ws)"
    and o: "out = map (deref h') ws"
    by auto
  have ne: "w \<noteq> []" using n get_next_waypoint_empty by auto
  have kk: "k < length ws" using k o by simp
  have "w ! nat ((n + int k) mod int (length w)) \<in> set w"
    using ne by (simp add: nat_less_iff)
  then have "0 \<le> linear_x (twists h (twist (w ! nat ((n + int k) mod int (length w)))))"
    using nn by (simp add: speed_def)
  from get_final_waypoints_window(3)[OF g ne wf kk this]
  have "0 \<le> linear_x (snd (out ! k))
     \<and> linear_x (snd (out ! k)) \<le> speed h (w ! nat ((n + int k) mod int (length w)))"
    using o kk by (simp add: speed_def deref_def)
  with n show ?thesis by blast
qed

lemma loop_frame:
  assumes "loop h st = Inr (h', st', out)"
  shows "base_waypoints st' = base_waypoints st"
    and "\<forall>a<fresh h. poses h' a = poses h a \<and> twists h' a = twists h a"
proof -
  have "base_waypoints st' = base_waypoints st
     \<and> (\<forall>a<fresh h. poses h' a = poses h a \<and> twists h' a = twists h a)"
  proof (cases "base_waypoints st = None \<or> current_pose st = None")
    case True
    from loop_skip[OF this, of h] assms show ?thesis by simp
  next
    case False
    then obtain w p where wp: "base_waypoints st = Some w" "current_pose st = Some p" by auto
    from loop_Inr[OF assms wp] obtain n stx e ws where
      g: "get_final_waypoints h stx w n e = Inr (h', st', ws)"
      and sx: "base_waypoints stx = base_waypoints st"
      by auto
    from get_final_waypoints_frame(2,3)[OF g] sx show ?thesis by simp
  qed
  then show "base_waypoints st' = base_waypoints st"
    and "\<forall>a<fresh h. poses h' a = poses h a \<and> twists h' a = twists h a" by blast+
qed

section \<open>Invariants along runs\<close>

lemma alloc_lane_fresh:
  "alloc_lane h ms = (h', ws) \<Longrightarrow>
     fresh h \<le> fresh h'
     \<and> (\<forall>x\<in>set ws. fresh h \<le> pose x \<and> pose x < fresh h'
                     \<and> fresh h \<le> twist x \<and> twist x < fresh h')"
proof (induction ms arbitrary: h ws h')
  case Nil
  then show ?case by simp
next
  case (Cons m ms)
  obtain p t where m: "m = (p, t)" by (cases m)
  define h1 where "h1 = h\<lparr>poses := (poses h)(fresh h := p), twists := (twists h)(Suc (fresh h) := t),
                 fresh := Suc (Suc (fresh h))\<rparr>"
  obtain h2 ws2 where r: "alloc_lane h1 ms = (h2, ws2)" by (cases "alloc_lane h1 ms")
  from Cons.prems m r have e: "h' = h2" "ws = \<lparr>pose = fresh h, twist = Suc (fresh h)\<rparr> # ws2"
    by (simp_all add: Let_def h1_def)
  from Cons.IH[OF r] have "fresh h1 \<le> fresh h2"
    and "\<forall>x\<in>set ws2. fresh h1 \<le> pose x \<and> pose x < fresh h2
                     \<and> fresh h1 \<le> twist x \<and> twist x < fresh h2"
    by simp_all
  moreover have "fresh h1 = Suc (Suc (fresh h))" by (simp add: h1_def)
  ultimately show ?case using e by auto
qed

lemma get_final_waypoints_rates:
  assumes "get_final_waypoints h st w s e = Inr (h', st', ws')"
  shows "accel st' = accel st \<and> decel st' = decel st"
proof -
  from assms have "st' = st \<or> set_starting_point st = Inr st'"
    by (auto simp: get_final_waypoints_Inr accelerate_Inr split: if_splits)
  then show ?thesis using set_starting_point_fields(3,4) by auto
qed

lemma loop_invariants:
  assumes "loop h st = Inr (h', st', out)"
  shows "fresh h \<le> fresh h'" and "accel st' = accel st" and "decel st' = decel st"
proof -
  have "fresh h \<le> fresh h' \<and> accel st' = accel st \<and> decel st' = decel st"
  proof (cases "base_waypoints st = None \<or> current_pose st = None")
    case True
    from loop_skip[OF this, of h] assms show ?thesis by simp
  next
    case False
    then obtain w p where wp: "base_waypoints st = Some w" "current_pose st = Some p" by auto
    from loop_Inr[OF assms wp] obtain n stx e ws where
      g: "get_final_waypoints h stx w n e = Inr (h', st', ws)"
      and sx: "accel stx = accel st" "decel stx = decel st"
      by auto
    from get_final_waypoints_frame(5)[OF g] get_final_waypoints_rates[OF g] sx
    show ?thesis by simp
  qed
  then show "fresh h \<le> fresh h'" and "accel st' = accel st" and "decel st' = decel st"
    by simp_all
qed

lemma step_invariants:
  assumes "step e (h, st) = Inr (h', st')"
  shows "accel st' = accel st" and "decel st' = decel st"
    and "route_allocated h st \<Longrightarrow> route_allocated h' st'"
proof -
  have "accel st' = accel st \<and> decel st' = decel st
      \<and> (route_allocated h st \<longrightarrow> route_allocated h' st')"
  proof (cases e)
    case (BaseWaypoints msg)
    obtain h1 ws where a: "alloc_lane h msg = (h1, ws)" by (cases "alloc_lane h msg")
    with assms BaseWaypoints have "h' = h1" "st' = st\<lparr>base_waypoints := Some ws\<rparr>"
      by simp_all
    then show ?thesis using alloc_lane_fresh[OF a] by (simp add: route_allocated_def)
  next
    case Cycle
    with assms obtain out where l: "loop h st = Inr (h', st', out)"
      by (auto simp: ebind_eq_Inr)
    from loop_invariants[OF l] loop_frame(1)[OF l] show ?thesis
      by (auto simp: route_allocated_def split: option.splits)
  qed (use assms in \<open>auto simp: route_allocated_def\<close>)
  then show "accel st' = accel st" and "decel st' = decel st"
    and "route_allocated h st \<Longrightarrow> route_allocated h' st'"
    by simp_all
qed

lemma run_invariants:
  assumes "run evs (h, st) = Inr (h', st')"
  shows "accel st' = accel st \<and> decel st' = decel st
       \<and> (route_allocated h st \<longrightarrow> route_allocated h' st')"
  using assms
proof (induction evs arbitrary: h st)
  case Nil
  then show ?case by simp
next
  case (Cons e es)
  from Cons.prems obtain h1 st1 where
    s: "step e (h, st) = Inr (h1, st1)" and r: "run es (h1, st1) = Inr (h', st')"
    by (auto simp: ebind_eq_Inr)
  from Cons.IH[OF r] step_invariants[OF s] show ?case by simp
qed

lemma reachable_invariants:
  assumes "run evs (empty_heap, init_state) = Inr (h, st)"
  shows "accel st = 1 \<and> decel st = 1 \<and> route_allocated h st"
  using run_invariants[OF assms] by (simp add: init_state_def route_allocated_def)

lemma test_route_arrival:
  "alloc_lane empty_heap
     [(pose_at 0 0, twist_of 5), (pose_at 10 0, twist_of 5), (pose_at 12 0, twist_of 5)]
   = (test_heap, test_route)"
  by (simp add: empty_heap_def test_heap_def test_route_def Let_def numeral_eq_Suc)

section \<open>The small route\<close>

lemmas fixture_defs = test_route_def test_heap_def test_node_def init_state_def pose_at_def
  twist_of_def reverse_window_def reverse_heap_def

lemmas eval_defs = ebind_def py_index_def py_mod_def math_sqrt_def
  LOOKAHEAD_WPS_def MAX_DECEL_def STOP_BUFFER_def deepcopy_pose_def deepcopy_twist_def
  set_linear_x_def deref_def speed_def pos_def distance_def get_closest_waypoint_def
  get_next_waypoint_def accelerate_def decelerate_def extract_window_def
  get_final_waypoints_def publish_def loop_def set_starting_point_def emitted_def
  float_square_def Let_def

lemma emitted_Some: "emitted r = Some out \<longleftrightarrow> (\<exists>h' st'. r = Inr (h', st', Some out))"
  by (cases r) (auto simp: emitted_def)

lemma test_route_wf: "\<forall>x\<in>set test_route. pose x < fresh test_heap \<and> twist x < fresh test_heap"
  by (simp add: fixture_defs)

lemma test_next_waypoint: "get_next_waypoint test_heap (pose_at 1 0) test_route = Inr 1"
  by (simp add: fixture_defs eval_defs)

text \<open>A speed of \<open>10 ^ 200\<close> ends the cycle at line 59, whatever the stop index says.\<close>

lemma test_overflow:
  "loop test_heap ((test_node (- 1) False)\<lparr>current_velocity := 10 ^ 200\<rparr>) = Inl OverflowError"
proof -
  let ?st = "(test_node (- 1) False)\<lparr>current_velocity := 10 ^ 200\<rparr>"
  have b: "base_waypoints ?st = Some test_route" and p: "current_pose ?st = Some (pose_at 1 0)"
    by (simp_all add: test_node_def)
  have t: "py_index test_route (traffic_waypoint ?st) = Inr (test_route ! 2)"
    by (simp add: test_node_def test_route_def py_index_def)
  have v: "2 ^ 512 \<le> \<bar>current_velocity ?st\<bar>" by simp
  from loop_overflow[OF b p test_next_waypoint t v] show ?thesis .
qed

section \<open>The claims\<close>

text \<open>
  C1 (amended). The cycle neither clamps nor rejects the stop index. With a route of
  \<open>N \<ge> 1\<close> points and a pose present, a stop index below \<open>-N\<close> or at least \<open>N\<close>
  makes the subscript of line 56 raise \<open>IndexError\<close>, which leaves the cycle with
  nothing published.
\<close>

theorem stop_index_unchecked:
  assumes "base_waypoints st = Some w" and "current_pose st = Some p" and "w \<noteq> []"
    and "traffic_waypoint st < - int (length w) \<or> int (length w) \<le> traffic_waypoint st"
  shows "loop h st = Inl IndexError"
  using assms by (rule loop_index_error)

text \<open>On the small route: the stop indices -4 and 7 raise.\<close>

theorem stop_index_unchecked_witness:
  "loop test_heap (test_node (- 4) True) = Inl IndexError
   \<and> loop test_heap (test_node 7 False) = Inl IndexError"
  using stop_index_unchecked[of "test_node (- 4) True" test_route "pose_at 1 0" test_heap]
        stop_index_unchecked[of "test_node 7 False" test_route "pose_at 1 0" test_heap]
  by (simp add: fixture_defs)

text \<open>
  As first stated, C1 fails: with three route points and the stop index 3, the
  cycle ends in \<open>IndexError\<close>.
\<close>

theorem stop_index_out_of_range_raises:
  "\<not> (0 \<le> traffic_waypoint (test_node 3 False)
       \<and> traffic_waypoint (test_node 3 False) < int (length test_route))
   \<and> loop test_heap (test_node 3 False) = Inl IndexError"
  by (simp add: fixture_defs eval_defs)

text \<open>
  C2 (amended). With the stop index \<open>-1\<close>, a pose, a non-empty route whose objects
  are allocated and a current speed below \<open>2 ^ 512\<close> in absolute value (beyond it the
  square of line 59 raises \<open>OverflowError\<close> and nothing is published), the cycle
  publishes the closed index range from \<open>next_wp\<close> to \<open>next_wp + LOOKAHEAD_WPS\<close>:
  \<open>LOOKAHEAD_WPS + 1 = 101\<close> points, the \<open>k\<close>-th at the pose of route point
  \<open>(next_wp + k) mod N\<close>, and the mode after the cycle is not braking.
\<close>

theorem cruise_window:
  assumes "base_waypoints st = Some w" and "current_pose st = Some p" and "w \<noteq> []"
    and "traffic_waypoint st = - 1" and "0 \<le> accel st"
    and "\<bar>current_velocity st\<bar> < 2 ^ 512"
    and "\<forall>x\<in>set w. pose x < fresh h \<and> twist x < fresh h"
  shows "\<exists>h' st' out next_wp.
      get_next_waypoint h p w = Inr next_wp
    \<and> loop h st = Inr (h', st', Some out)
    \<and> \<not> braking st'
    \<and> int (length out) = LOOKAHEAD_WPS + 1
    \<and> (\<forall>k<length out.
          fst (out ! k) = poses h (pose (w ! nat ((next_wp + int k) mod int (length w)))))"
  using assms by (rule loop_cruise)

text \<open>On the small route, starting in braking mode without a stop signal.\<close>

theorem cruise_window_witness:
  "map_option length (emitted (loop test_heap (test_node (- 1) True))) = Some 101"
proof -
  from cruise_window[of "test_node (- 1) True" test_route "pose_at 1 0" test_heap]
  obtain h' st' out where "loop test_heap (test_node (- 1) True) = Inr (h', st', Some out)"
    and "int (length out) = LOOKAHEAD_WPS + 1"
    using test_route_wf by (auto simp: fixture_defs)
  then show ?thesis by (simp add: emitted_def LOOKAHEAD_WPS_def)
qed

text \<open>
  As first stated, C2 fails: the cruising window has 101 points, one more than
  \<open>LOOKAHEAD_WPS\<close>.
\<close>

theorem cruise_window_has_101_points:
  "map_option length (emitted (loop test_heap (test_node (- 1) False))) = Some 101
   \<and> LOOKAHEAD_WPS = 100"
proof -
  from loop_cruise[of "test_node (- 1) False" test_route "pose_at 1 0" test_heap]
  obtain h' st' out where "loop test_heap (test_node (- 1) False) = Inr (h', st', Some out)"
    and "int (length out) = LOOKAHEAD_WPS + 1"
    using test_route_wf by (auto simp: fixture_defs)
  then show ?thesis by (simp add: emitted_def LOOKAHEAD_WPS_def)
qed

text \<open>
  C3. Along any run of callbacks and cycles that starts in braking mode and ends in a
  state that is not braking, some cycle was run while the mode was braking and the stop
  index was \<open>-1\<close>. So the mode leaves braking only in a cycle that sees no stop signal;
  distance and speed play no part.
\<close>

theorem braking_persists:
  assumes "run evs (h, st) = Inr (h', st')" and "braking st" and "\<not> braking st'"
  shows "\<exists>pre suf h1 st1. evs = pre @ Cycle # suf \<and> run pre (h, st) = Inr (h1, st1)
           \<and> braking st1 \<and> traffic_waypoint st1 = - 1"
  using assms
proof (induction evs arbitrary: h st)
  case Nil
  then show ?case by simp
next
  case (Cons e es)
  from Cons.prems(1) obtain h1 st1 where
    s: "step e (h, st) = Inr (h1, st1)" and r: "run es (h1, st1) = Inr (h', st')"
    by (auto simp: ebind_eq_Inr)
  show ?case
  proof (cases "braking st1")
    case True
    from Cons.IH[OF r True Cons.prems(3)] obtain pre suf h2 st2 where
      "es = pre @ Cycle # suf" "run pre (h1, st1) = Inr (h2, st2)"
      "braking st2" "traffic_waypoint st2 = - 1"
      by blast
    then have "e # es = (e # pre) @ Cycle # suf \<and> run (e # pre) (h, st) = Inr (h2, st2)
       \<and> braking st2 \<and> traffic_waypoint st2 = - 1"
      using s by simp
    then show ?thesis by blast
  next
    case False
    with s Cons.prems(2) have "e = Cycle \<and> traffic_waypoint st = - 1"
      by (rule_tac step_keeps_braking) auto
    then have "e # es = [] @ Cycle # es \<and> run [] (h, st) = Inr (h, st)
       \<and> braking st \<and> traffic_waypoint st = - 1"
      using Cons.prems(2) by simp
    then show ?thesis by blast
  qed
qed

text \<open>One cycle without a stop signal takes the node on the small route out of braking.\<close>

theorem braking_persists_witness:
  "braking (test_node (- 1) True)
   \<and> \<not> braking (snd (projr (run [Cycle] (test_heap, test_node (- 1) True))))
   \<and> (\<exists>pre suf h1 st1. [Cycle] = pre @ Cycle # suf
         \<and> run pre (test_heap, test_node (- 1) True) = Inr (h1, st1)
         \<and> braking st1 \<and> traffic_waypoint st1 = - 1)"
proof -
  from loop_cruise[of "test_node (- 1) True" test_route "pose_at 1 0" test_heap]
  obtain h' st' out where l: "loop test_heap (test_node (- 1) True) = Inr (h', st', Some out)"
    and nb: "\<not> braking st'"
    using test_route_wf by (auto simp: fixture_defs)
  from l have r: "run [Cycle] (test_heap, test_node (- 1) True) = Inr (h', st')" by simp
  have b: "braking (test_node (- 1) True)" by (simp add: fixture_defs)
  from braking_persists[OF r b nb] show ?thesis using r b nb by simp
qed

text \<open>
  C4. On a non-empty window whose speeds are all non-negative (and with a non-negative
  deceleration rate, which is 1 in every state the node reaches), \<open>decelerate\<close>
  returns the same window; afterwards the last point has speed exactly 0, every point's
  speed is at most its speed before the pass, and no position has changed.
\<close>

theorem decelerate_stops:
  assumes "ws \<noteq> []" and "\<forall>wp\<in>set ws. 0 \<le> speed h wp" and "0 \<le> decel st"
  shows "\<exists>h'. decelerate h st ws = Inr (h', ws)
           \<and> speed h' (last ws) = 0
           \<and> (\<forall>i<length ws. speed h' (ws ! i) \<le> speed h (ws ! i))
           \<and> (\<forall>i<length ws. pos h' (ws ! i) = pos h (ws ! i))"
proof -
  from decelerate_total[OF assms(1,3), of h] obtain h' where
    d: "decelerate h st ws = Inr (h', ws)" by blast
  have "speed h' (ws ! i) \<le> speed h (ws ! i)" if "i < length ws" for i
    using decelerate_props(7)[OF d, of "twist (ws ! i)"] assms(2) that
    by (simp add: speed_def)
  moreover have "pos h' (ws ! i) = pos h (ws ! i)" for i
    using decelerate_props(3)[OF d] by (simp add: pos_def)
  ultimately show ?thesis using d decelerate_props(5)[OF d] by blast
qed

text \<open>The small route taken as a window.\<close>

theorem decelerate_stops_witness:
  "test_route \<noteq> [] \<and> 0 \<le> decel init_state
   \<and> speed (fst (projr (decelerate test_heap init_state test_route))) (last test_route) = 0
   \<and> speed (fst (projr (decelerate test_heap init_state test_route))) (test_route ! 0)
       \<le> speed test_heap (test_route ! 0)"
  using decelerate_stops[of test_route test_heap init_state]
  by (auto simp: fixture_defs speed_def)

text \<open>
  C5. In a cycle that publishes a window, over a route with allocated objects and
  non-negative nominal speeds, the \<open>k\<close>-th published speed lies between 0 and the
  nominal speed of route point \<open>(next_wp + k) mod N\<close>. This covers both shaping passes:
  the cruising branches shape with \<open>accelerate\<close>, the braking branch with \<open>decelerate\<close>.
\<close>

theorem emitted_speeds_bounded:
  assumes "emitted (loop h st) = Some out"
    and "base_waypoints st = Some w" and "current_pose st = Some p"
    and "\<forall>x\<in>set w. pose x < fresh h \<and> twist x < fresh h"
    and "\<forall>x\<in>set w. 0 \<le> speed h x"
    and "k < length out"
  shows "\<exists>next_wp. get_next_waypoint h p w = Inr next_wp
     \<and> 0 \<le> linear_x (snd (out ! k))
     \<and> linear_x (snd (out ! k)) \<le> speed h (w ! nat ((next_wp + int k) mod int (length w)))"
proof -
  from assms(1) obtain h' st' where "loop h st = Inr (h', st', Some out)"
    by (auto simp: emitted_Some)
  from loop_speeds[OF this assms(2-6)] show ?thesis .
qed

text \<open>
  With the stop index 2 the node on the small route brakes and publishes route points 1
  and 2; both lie in the stop buffer, so both speeds are 0.
\<close>

theorem emitted_speeds_bounded_witness:
  "emitted (loop test_heap (test_node 2 False))
     = Some [(pose_at 10 0, twist_of 0), (pose_at 12 0, twist_of 0)]
   \<and> 0 \<le> linear_x (twist_of 0)
   \<and> linear_x (twist_of 0) \<le> speed test_heap (test_route ! 1)"
proof -
  have e: "emitted (loop test_heap (test_node 2 False))
     = Some [(pose_at 10 0, twist_of 0), (pose_at 12 0, twist_of 0)]"
    by (simp add: fixture_defs eval_defs upto.simps)
  have n: "\<forall>x\<in>set test_route. 0 \<le> speed test_heap x"
    by (simp add: fixture_defs speed_def)
  have i: "test_route ! nat ((1 + int 0) mod int (length test_route)) = test_route ! 1"
    by (simp add: test_route_def)
  from emitted_speeds_bounded[OF e _ _ test_route_wf n, of "pose_at 1 0" 0]
  show ?thesis using e test_next_waypoint i by (simp add: test_node_def)
qed

text \<open>
  C6. For a route of \<open>N \<ge> 2\<close> allocated points and \<open>0 \<le> end < start < N\<close>, extraction
  returns \<open>(end + N - start) mod N + 1\<close> points; the \<open>k\<close>-th has the contents of the
  route point at \<open>(start + k) mod N\<close>, which is an index of the route.
\<close>

theorem extract_wraps:
  assumes "2 \<le> length w" and "0 \<le> e" and "e < s" and "s < int (length w)"
    and "\<forall>x\<in>set w. pose x < fresh h \<and> twist x < fresh h"
  shows "\<exists>h' ws. extract_window h w s e = Inr (h', ws)
     \<and> int (length ws) = (e + int (length w) - s) mod int (length w) + 1
     \<and> (\<forall>k<length ws. 0 \<le> (s + int k) mod int (length w)
            \<and> (s + int k) mod int (length w) < int (length w)
            \<and> deref h' (ws ! k) = deref h (w ! nat ((s + int k) mod int (length w))))"
proof -
  have ne: "w \<noteq> []" using assms(1) by auto
  from extract_window_spec[OF ne, of h s e] assms(5) obtain h' ws where
    x: "extract_window h w s e = Inr (h', ws)"
    and len: "length ws = nat ((if e < s then e + int (length w) else e) - s + 1)"
    and d: "\<forall>k<length ws. deref h' (ws ! k) = deref h (w ! nat ((s + int k) mod int (length w)))"
    by blast
  have "(e + int (length w) - s) mod int (length w) = e + int (length w) - s"
    using assms(2,3,4) by (intro mod_pos_pos_trivial) simp_all
  then have "int (length ws) = (e + int (length w) - s) mod int (length w) + 1"
    using len assms(2,3,4) by simp
  moreover have "0 \<le> (s + int k) mod int (length w)
            \<and> (s + int k) mod int (length w) < int (length w)" for k
    using ne by simp
  ultimately show ?thesis using x d by blast
qed

text \<open>From index 2 round to index 0 of the small route: two points, the second a copy of point 0.\<close>

theorem extract_wraps_witness:
  "length (snd (projr (extract_window test_heap test_route 2 0))) = 2
   \<and> deref (fst (projr (extract_window test_heap test_route 2 0)))
        (snd (projr (extract_window test_heap test_route 2 0)) ! 1)
      = deref test_heap (test_route ! 0)"
proof -
  from extract_wraps[of test_route 0 2 test_heap] test_route_wf obtain h' ws where
    x: "extract_window test_heap test_route 2 0 = Inr (h', ws)"
    and len: "int (length ws) = (0 + int (length test_route) - 2) mod int (length test_route) + 1"
    and d: "\<forall>k<length ws. deref h' (ws ! k)
                = deref test_heap (test_route ! nat ((2 + int k) mod int (length test_route)))"
    by (auto simp: test_route_def)
  from len have l2: "length ws = 2" by (simp add: test_route_def)
  with d have "deref h' (ws ! 1) = deref test_heap (test_route ! nat ((2 + 1) mod int (length test_route)))"
    by (auto simp del: One_nat_def)
  then show ?thesis using x l2 by (simp add: test_route_def)
qed



text \<open>
  C8. Both passes are idempotent. Running \<open>accelerate\<close> again on its own result, with
  the node's attributes as the first run left them or as they were before it, gives that
  result again; so does running \<open>decelerate\<close> again. Where the first run raises, so
  does the composition.
\<close>

theorem shaping_idempotent:
  "ebind (accelerate h st ws) (\<lambda>(h', st', ws'). accelerate h' st' ws') = accelerate h st ws
   \<and> ebind (accelerate h st ws) (\<lambda>(h', st', ws'). accelerate h' st ws') = accelerate h st ws
   \<and> ebind (decelerate h st ws) (\<lambda>(h', ws'). decelerate h' st ws') = decelerate h st ws"
proof (intro conjI)
  show "ebind (accelerate h st ws) (\<lambda>(h', st', ws'). accelerate h' st' ws') = accelerate h st ws"
  proof (cases "accelerate h st ws")
    case (Inl e)
    then show ?thesis by simp
  next
    case (Inr r)
    obtain h' st' ws' where r: "r = (h', st', ws')" by (cases r)
    from accelerate_idem[of h st ws h' st' ws'] Inr r show ?thesis by simp
  qed
  show "ebind (accelerate h st ws) (\<lambda>(h', st', ws'). accelerate h' st ws') = accelerate h st ws"
  proof (cases "accelerate h st ws")
    case (Inl e)
    then show ?thesis by simp
  next
    case (Inr r)
    obtain h' st' ws' where r: "r = (h', st', ws')" by (cases r)
    from accelerate_restart[of h st ws h' st' ws'] Inr r show ?thesis by simp
  qed
  show "ebind (decelerate h st ws) (\<lambda>(h', ws'). decelerate h' st ws') = decelerate h st ws"
  proof (cases "decelerate h st ws")
    case (Inl e)
    then show ?thesis by simp
  next
    case (Inr r)
    obtain h' ws' where r: "r = (h', ws')" by (cases r)
    from decelerate_idem[of h st ws h' ws'] Inr r show ?thesis by simp
  qed
qed

text \<open>The small route taken as a window, decelerated twice.\<close>

theorem shaping_idempotent_witness:
  "ebind (decelerate test_heap init_state test_route)
      (\<lambda>(h', ws'). decelerate h' init_state ws') = decelerate test_heap init_state test_route
   \<and> (\<exists>h'. decelerate test_heap init_state test_route = Inr (h', test_route))"
  using shaping_idempotent[of test_heap init_state test_route]
    decelerate_total[of test_route init_state test_heap]
  by (simp add: test_route_def init_state_def)

text \<open>
  C9. Building and shaping a window writes to new objects only. After
  \<open>get_final_waypoints\<close>, every pose and twist object that existed before is unchanged
  and every point of the window refers to objects that did not exist before. After a
  cycle, the node still holds the same route, every object that existed before is
  unchanged, and so the route's points read as they did.
\<close>

theorem route_not_mutated:
  "(get_final_waypoints h st w s e = Inr (h', st', ws) \<longrightarrow>
      (\<forall>a<fresh h. poses h' a = poses h a \<and> twists h' a = twists h a)
      \<and> (\<forall>x\<in>set ws. fresh h \<le> pose x \<and> fresh h \<le> twist x))
   \<and> (loop h st = Inr (h', st', out) \<longrightarrow>
      base_waypoints st' = base_waypoints st
      \<and> (\<forall>a<fresh h. poses h' a = poses h a \<and> twists h' a = twists h a)
      \<and> (\<forall>r. base_waypoints st = Some r
             \<and> (\<forall>x\<in>set r. pose x < fresh h \<and> twist x < fresh h)
             \<longrightarrow> map (deref h') r = map (deref h) r))"
proof (intro conjI impI)
  assume g: "get_final_waypoints h st w s e = Inr (h', st', ws)"
  show "\<forall>a<fresh h. poses h' a = poses h a \<and> twists h' a = twists h a"
    using get_final_waypoints_frame(3)[OF g] .
  show "\<forall>x\<in>set ws. fresh h \<le> pose x \<and> fresh h \<le> twist x"
    using get_final_waypoints_frame(4)[OF g] .
next
  assume l: "loop h st = Inr (h', st', out)"
  show "base_waypoints st' = base_waypoints st" using loop_frame(1)[OF l] .
  show f: "\<forall>a<fresh h. poses h' a = poses h a \<and> twists h' a = twists h a"
    using loop_frame(2)[OF l] .
  show "\<forall>r. base_waypoints st = Some r
             \<and> (\<forall>x\<in>set r. pose x < fresh h \<and> twist x < fresh h)
             \<longrightarrow> map (deref h') r = map (deref h) r"
    using f by (auto simp: deref_def)
qed

text \<open>
  A cycle of the braking node on the small route, with the stop index 2: its window is
  built by \<open>get_final_waypoints\<close> from index 1 to index 2, and the three route points
  read as before.
\<close>

theorem route_not_mutated_witness:
  "loop test_heap (test_node 2 True)
     = Inr (fst (projr (get_final_waypoints test_heap (test_node 2 True) test_route 1 2)),
            fst (snd (projr (get_final_waypoints test_heap (test_node 2 True) test_route 1 2))),
            Some (map (deref (fst (projr (get_final_waypoints test_heap (test_node 2 True)
                                            test_route 1 2))))
                    (snd (snd (projr (get_final_waypoints test_heap (test_node 2 True)
                                            test_route 1 2))))))
   \<and> map (deref (fst (projr (get_final_waypoints test_heap (test_node 2 True) test_route 1 2))))
         test_route
     = map (deref test_heap) test_route
   \<and> base_waypoints (fst (snd (projr (get_final_waypoints test_heap (test_node 2 True)
                                        test_route 1 2))))
     = Some test_route"
proof -
  have b: "base_waypoints (test_node 2 True) = Some test_route"
    and p: "current_pose (test_node 2 True) = Some (pose_at 1 0)"
    and t: "py_index test_route (traffic_waypoint (test_node 2 True)) = Inr (test_route ! 2)"
    and v: "\<bar>current_velocity (test_node 2 True)\<bar> < 2 ^ 512"
    by (simp_all add: test_node_def test_route_def py_index_def init_state_def)
  have "\<exists>h' st' ws. get_final_waypoints test_heap (test_node 2 True) test_route 1 2
           = Inr (h', st', ws)"
    by (rule get_final_waypoints_total) (simp_all add: fixture_defs)
  then obtain h' st' ws where
    g: "get_final_waypoints test_heap (test_node 2 True) test_route 1 2 = Inr (h', st', ws)"
    by blast
  have m: "(test_node 2 True)\<lparr>braking := True\<rparr> = test_node 2 True"
    by (simp add: test_node_def)
  have l: "loop test_heap (test_node 2 True) = Inr (h', st', Some (map (deref h') ws))"
    unfolding loop_unfold[OF b p test_next_waypoint t v] using g m
    by (simp add: test_node_def publish_def)
  from route_not_mutated[of test_heap "test_node 2 True" test_route 1 2 h' st' ws
      "Some (map (deref h') ws)"] g l b test_route_wf
  show ?thesis by simp
qed

text \<open>
  C10 (amended). In \<open>decelerate\<close> (with a non-negative deceleration rate), every window
  point whose speed before the pass is non-negative and whose distance to the window's
  last point is at most \<open>STOP_BUFFER\<close> ends with speed exactly 0.
\<close>

theorem buffer_zone_zero:
  assumes "wp \<in> set ws" and "distance (pos h wp) (pos h (last ws)) \<le> STOP_BUFFER"
    and "0 \<le> speed h wp" and "0 \<le> decel st"
  shows "\<exists>h'. decelerate h st ws = Inr (h', ws) \<and> speed h' wp = 0"
proof -
  from assms(1) have "ws \<noteq> []" by auto
  from decelerate_total[OF this assms(4), of h] obtain h' where
    d: "decelerate h st ws = Inr (h', ws)" by blast
  from decelerate_zero_in_buffer[OF d assms(1,2,3)] d show ?thesis by blast
qed

text \<open>Route point 1 lies two units before route point 2.\<close>

theorem buffer_zone_zero_witness:
  "distance (pos test_heap (test_route ! 1)) (pos test_heap (last test_route)) \<le> STOP_BUFFER
   \<and> 0 \<le> speed test_heap (test_route ! 1)
   \<and> speed (fst (projr (decelerate test_heap init_state test_route))) (test_route ! 1) = 0"
proof -
  have a: "test_route ! 1 \<in> set test_route" by (simp add: test_route_def)
  have b: "distance (pos test_heap (test_route ! 1)) (pos test_heap (last test_route)) \<le> STOP_BUFFER"
    by (simp add: fixture_defs distance_def pos_def STOP_BUFFER_def)
  have c: "0 \<le> speed test_heap (test_route ! 1)" by (simp add: fixture_defs speed_def)
  have d: "0 \<le> decel init_state" by (simp add: init_state_def)
  from buffer_zone_zero[OF a b c d] show ?thesis using b c by auto
qed

text \<open>
  As first stated, C10 fails: a point inside the stop buffer that enters the pass
  with speed -1 leaves it with speed -1.
\<close>

theorem buffer_zone_negative_speed_kept:
  "distance (pos reverse_heap (reverse_window ! 0)) (pos reverse_heap (last reverse_window))
     \<le> STOP_BUFFER
   \<and> speed (fst (projr (decelerate reverse_heap init_state reverse_window))) (reverse_window ! 0)
     = - 1"
  by (simp add: fixture_defs eval_defs)

end
